theory Spec2Isabelle
  imports Main
begin

section \<open>Index converter: marker splitter and index parser\<close>

text \<open>
  A shallow embedding of \<^verbatim>\<open>extract_text\<close>, \<^verbatim>\<open>parse_index\<close> and
  \<^verbatim>\<open>format_pages\<close> of \<^verbatim>\<open>index_converter.py\<close>.

  Python strings are sequences of code points. A \<^typ>\<open>char\<close> stands for the code
  point of the same number, so the texts covered are those over code points 0 to 255;
  the character classes below are Python's on that range.
\<close>

subsection \<open>Character classes\<close>

definition is_space :: "char \<Rightarrow> bool" where
  \<comment> \<open>\<^verbatim>\<open>str.isspace\<close> on one character, which is also what \<^verbatim>\<open>\s\<close> matches\<close>
  "is_space c \<longleftrightarrow>
     c \<in> set [CHR 0x09, CHR 0x0A, CHR 0x0B, CHR 0x0C, CHR 0x0D, CHR 0x1C, CHR 0x1D,
              CHR 0x1E, CHR 0x1F, CHR 0x20, CHR 0x85, CHR 0xA0]"

definition is_digit :: "char \<Rightarrow> bool" where
  \<comment> \<open>what \<^verbatim>\<open>\d\<close> matches\<close>
  "is_digit c \<longleftrightarrow> c \<in> set ''0123456789''"

definition is_alpha :: "char \<Rightarrow> bool" where
  \<comment> \<open>\<^verbatim>\<open>str.isalpha\<close> on one character\<close>
  "is_alpha c \<longleftrightarrow>
     (let n = (of_char c :: nat) in
        (0x41 \<le> n \<and> n \<le> 0x5A) \<or> (0x61 \<le> n \<and> n \<le> 0x7A) \<or> n = 0xAA \<or> n = 0xB5 \<or>
        n = 0xBA \<or> (0xC0 \<le> n \<and> n \<le> 0xD6) \<or> (0xD8 \<le> n \<and> n \<le> 0xF6) \<or> 0xF8 \<le> n)"

definition is_linebreak :: "char \<Rightarrow> bool" where
  \<comment> \<open>the line boundaries of \<^verbatim>\<open>str.splitlines\<close>\<close>
  "is_linebreak c \<longleftrightarrow>
     c \<in> set [CHR 0x0A, CHR 0x0B, CHR 0x0C, CHR 0x0D, CHR 0x1C, CHR 0x1D, CHR 0x1E, CHR 0x85]"

subsection \<open>String operations of the Python library\<close>

definition lstrip :: "string \<Rightarrow> string" where
  "lstrip s = dropWhile is_space s"

definition rstrip :: "string \<Rightarrow> string" where
  "rstrip s = rev (dropWhile is_space (rev s))"

definition strip :: "string \<Rightarrow> string" where
  \<comment> \<open>\<^verbatim>\<open>s.strip()\<close>\<close>
  "strip s = rstrip (lstrip s)"

definition isalpha :: "string \<Rightarrow> bool" where
  \<comment> \<open>\<^verbatim>\<open>s.isalpha()\<close>: at least one character, all of them alphabetic\<close>
  "isalpha s \<longleftrightarrow> s \<noteq> [] \<and> list_all is_alpha s"

definition endswith_comma :: "string \<Rightarrow> bool" where
  \<comment> \<open>\<^verbatim>\<open>s.endswith(",")\<close>\<close>
  "endswith_comma s \<longleftrightarrow> s \<noteq> [] \<and> last s = CHR '',''"

definition rstrip_comma :: "string \<Rightarrow> string" where
  \<comment> \<open>\<^verbatim>\<open>s.rstrip(",")\<close>: every trailing comma goes\<close>
  "rstrip_comma s = rev (dropWhile (\<lambda>c. c = CHR '','') (rev s))"

fun split_comma :: "string \<Rightarrow> string list" where
  \<comment> \<open>\<^verbatim>\<open>s.split(",")\<close>: empty pieces are kept\<close>
  "split_comma [] = [[]]"
| "split_comma (c # cs) =
     (if c = CHR '','' then [] # split_comma cs
      else (case split_comma cs of [] \<Rightarrow> [[c]] | p # ps \<Rightarrow> (c # p) # ps))"

definition split_tab1 :: "string \<Rightarrow> string list" where
  \<comment> \<open>\<^verbatim>\<open>s.split("\t", 1)\<close>\<close>
  "split_tab1 s =
     (if CHR 0x09 \<in> set s
      then [takeWhile (\<lambda>c. c \<noteq> CHR 0x09) s, tl (dropWhile (\<lambda>c. c \<noteq> CHR 0x09) s)]
      else [s])"

definition split_none1 :: "string \<Rightarrow> string list" where
  \<comment> \<open>\<^verbatim>\<open>s.split(None, 1)\<close>: the first word, then what follows the whitespace after it\<close>
  "split_none1 s =
     (let s1 = dropWhile is_space s in
      if s1 = [] then []
      else
        let w = takeWhile (\<lambda>c. \<not> is_space c) s1;
            r = dropWhile is_space (dropWhile (\<lambda>c. \<not> is_space c) s1)
        in if r = [] then [w] else [w, r])"

fun join :: "string \<Rightarrow> string list \<Rightarrow> string" where
  \<comment> \<open>\<^verbatim>\<open>sep.join(xs)\<close>\<close>
  "join sep [] = []"
| "join sep [x] = x"
| "join sep (x # y # ys) = x @ sep @ join sep (y # ys)"

fun startswith :: "string \<Rightarrow> string \<Rightarrow> bool" where
  \<comment> \<open>\<^verbatim>\<open>s.startswith(m)\<close>, written \<open>startswith m s\<close>\<close>
  "startswith [] s = True"
| "startswith (m # ms) [] = False"
| "startswith (m # ms) (c # cs) = (m = c \<and> startswith ms cs)"

fun contains :: "string \<Rightarrow> string \<Rightarrow> bool" where
  \<comment> \<open>\<^verbatim>\<open>m in s\<close>, written \<open>contains m s\<close>\<close>
  "contains m [] = startswith m []"
| "contains m (c # cs) = (startswith m (c # cs) \<or> contains m cs)"

fun split1 :: "string \<Rightarrow> string \<Rightarrow> string list" where
  \<comment> \<open>\<^verbatim>\<open>s.split(m, 1)\<close> for a separator \<open>m\<close> that is not empty, written \<open>split1 m s\<close>:
      cut at the leftmost occurrence\<close>
  "split1 m [] = [[]]"
| "split1 m (c # cs) =
     (if startswith m (c # cs) then [[], drop (length m) (c # cs)]
      else (case split1 m cs of
              [p] \<Rightarrow> [c # p]
            | p # q # _ \<Rightarrow> [c # p, q]
            | [] \<Rightarrow> [[c]]))"

fun splitlines_from :: "string \<Rightarrow> string \<Rightarrow> string list" where
  \<comment> \<open>the line read so far, then the text still to read\<close>
  "splitlines_from cur [] = (if cur = [] then [] else [cur])"
| "splitlines_from cur (c # cs) =
     (if c = CHR 0x0D then
        (case cs of
           [] \<Rightarrow> [cur]
         | d # ds \<Rightarrow> if d = CHR 0x0A then cur # splitlines_from [] ds
                     else cur # splitlines_from [] (d # ds))
      else if is_linebreak c then cur # splitlines_from [] cs
      else splitlines_from (cur @ [c]) cs)"

definition splitlines :: "string \<Rightarrow> string list" where
  \<comment> \<open>\<^verbatim>\<open>s.splitlines()\<close>\<close>
  "splitlines s = splitlines_from [] s"

definition digits_value :: "string \<Rightarrow> int" where
  \<comment> \<open>the number that a string of decimal digits writes\<close>
  "digits_value s = foldl (\<lambda>n c. 10 * n + (int (of_char c) - 48)) 0 s"

definition max_str_digits :: nat where
  \<comment> \<open>\<^verbatim>\<open>sys.get_int_max_str_digits()\<close>, as the interpreter starts\<close>
  "max_str_digits = 4300"

subsection \<open>Errors\<close>

datatype py_error = KeyError | IndexError | ValueError

definition int_of_digits :: "string \<Rightarrow> py_error + int" where
  \<comment> \<open>\<^verbatim>\<open>int(s)\<close> on a string of decimal digits, which is what group 1 of a match is:
      a string of more than 4300 digits raises \<^verbatim>\<open>ValueError\<close>, leading zeros counted\<close>
  "int_of_digits s =
     (if max_str_digits < length s then Inl ValueError else Inr (digits_value s))"

definition bind_err :: "py_error + 'a \<Rightarrow> ('a \<Rightarrow> py_error + 'b) \<Rightarrow> py_error + 'b" where
  "bind_err m f = (case m of Inl e \<Rightarrow> Inl e | Inr x \<Rightarrow> f x)"

subsection \<open>Text extraction: the marker splitter\<close>

definition marker :: string where
  "marker = ''Index'' @ [CHR 0x0A] @
     ''Note: The numbers indicate the book number, followed by the page number.''"

definition index_item :: "'a list \<Rightarrow> nat \<Rightarrow> py_error + 'a" where
  \<comment> \<open>\<^verbatim>\<open>xs[i]\<close> for an index that is not negative\<close>
  "index_item xs i = (if i < length xs then Inr (xs ! i) else Inl IndexError)"

definition text_after_marker :: "string \<Rightarrow> py_error + string" where
  \<comment> \<open>\<^verbatim>\<open>full_text.split(marker, 1)[1].strip() if marker in full_text else ""\<close>\<close>
  "text_after_marker full_text =
     (if contains marker full_text
      then bind_err (index_item (split1 marker full_text) 1) (\<lambda>t. Inr (strip t))
      else Inr [])"

definition extract_text :: "string \<Rightarrow> string \<Rightarrow> py_error + string list" where
  \<comment> \<open>\<open>ext\<close> is the lower-cased extension of the file, \<open>full_text\<close> the text that the
      reader of that format returns for it\<close>
  "extract_text ext full_text =
     bind_err
       (if ext = ''docx'' then text_after_marker full_text
        else if ext = ''pdf'' then text_after_marker full_text
        else if ext = ''txt'' then text_after_marker full_text
        else Inr [])
       (\<lambda>text. Inr (splitlines text))"

subsection \<open>The index parser\<close>

record parse_state =
  data :: "string list list"
  current_subject :: string
  book_pages :: "int \<rightharpoonup> string list"

definition new_book_pages :: "int \<rightharpoonup> string list" where
  \<comment> \<open>\<^verbatim>\<open>{i: [] for i in range(1, 7)}\<close>\<close>
  "new_book_pages = (\<lambda>i. if 1 \<le> i \<and> i < 7 then Some [] else None)"

definition format_pages :: "string list \<Rightarrow> string" where
  "format_pages pages =
     (if pages = [] then [] else [CHR 0x22] @ join '', '' pages @ [CHR 0x22])"

definition match_ref :: "string \<Rightarrow> (string \<times> string) option" where
  \<comment> \<open>\<^verbatim>\<open>re.compile(r"(\d+)\s*:\s*(\S+)").match(t)\<close> and the two groups of the match.
      Digits, whitespace and the colon are disjoint classes, so the greedy repetitions
      leave nothing to backtrack over: each group is the longest run at its place.\<close>
  "match_ref t =
     (let book = takeWhile is_digit t;
          r1 = dropWhile is_space (dropWhile is_digit t)
      in if book = [] then None
         else (case r1 of
                 [] \<Rightarrow> None
               | c # r2 \<Rightarrow>
                   if c \<noteq> CHR '':'' then None
                   else
                     let pages = takeWhile (\<lambda>c. \<not> is_space c) (dropWhile is_space r2)
                     in if pages = [] then None else Some (book, pages)))"

definition add_ref :: "(int \<rightharpoonup> string list) \<Rightarrow> string \<Rightarrow> py_error + (int \<rightharpoonup> string list)" where
  \<comment> \<open>the body of \<^verbatim>\<open>for ref in refs\<close>\<close>
  "add_ref bp ref =
     (case match_ref (strip ref) of
        None \<Rightarrow> Inr bp
      | Some (book, pages) \<Rightarrow>
          bind_err (int_of_digits book) (\<lambda>b.
            if 1 \<le> b \<and> b \<le> 6
            then (case bp b of None \<Rightarrow> Inl KeyError | Some ps \<Rightarrow> Inr (bp(b \<mapsto> ps @ [pages])))
            else Inr bp))"

fun add_refs :: "(int \<rightharpoonup> string list) \<Rightarrow> string list \<Rightarrow> py_error + (int \<rightharpoonup> string list)" where
  "add_refs bp [] = Inr bp"
| "add_refs bp (r # rs) = bind_err (add_ref bp r) (\<lambda>bp'. add_refs bp' rs)"

fun format_books :: "(int \<rightharpoonup> string list) \<Rightarrow> int list \<Rightarrow> py_error + string list" where
  \<comment> \<open>\<^verbatim>\<open>[format_pages(book_pages[i]) for i in ...]\<close>\<close>
  "format_books bp [] = Inr []"
| "format_books bp (i # is) =
     (case bp i of
        None \<Rightarrow> Inl KeyError
      | Some ps \<Rightarrow> bind_err (format_books bp is) (\<lambda>fs. Inr (format_pages ps # fs)))"

definition append_row :: "parse_state \<Rightarrow> py_error + parse_state" where
  \<comment> \<open>\<^verbatim>\<open>data.append([current_subject] + [format_pages(book_pages[i]) for i in range(1, 7)])\<close>\<close>
  "append_row s =
     bind_err (format_books (book_pages s) [1, 2, 3, 4, 5, 6])
       (\<lambda>fs. Inr (s\<lparr>data := data s @ [current_subject s # fs]\<rparr>))"

definition reset :: "parse_state \<Rightarrow> parse_state" where
  \<comment> \<open>\<^verbatim>\<open>current_subject = ""; book_pages = {i: [] for i in range(1, 7)}\<close>\<close>
  "reset s = s\<lparr>current_subject := [], book_pages := new_book_pages\<rparr>"

definition divider_line :: "parse_state \<Rightarrow> string \<Rightarrow> py_error + parse_state" where
  \<comment> \<open>the branch \<^verbatim>\<open>if len(line) == 1 and line.isalpha()\<close>\<close>
  "divider_line s line =
     bind_err (if current_subject s \<noteq> [] then append_row s else Inr s)
       (\<lambda>s1. Inr (reset (s1\<lparr>data := data s1 @ [line # replicate 6 []]\<rparr>)))"

definition split_parts :: "string \<Rightarrow> string list" where
  \<comment> \<open>\<^verbatim>\<open>line.split("\t", 1) if "\t" in line else line.split(None, 1)\<close>\<close>
  "split_parts line = (if CHR 0x09 \<in> set line then split_tab1 line else split_none1 line)"

definition capture_subject :: "parse_state \<Rightarrow> string \<Rightarrow> string \<Rightarrow> parse_state" where
  \<comment> \<open>\<^verbatim>\<open>if not current_subject and not line.endswith(","): current_subject = parts[0].strip()\<close>\<close>
  "capture_subject s line p0 =
     (if current_subject s = [] \<and> \<not> endswith_comma line
      then s\<lparr>current_subject := strip p0\<rparr> else s)"

definition collect_refs :: "parse_state \<Rightarrow> string \<Rightarrow> py_error + parse_state" where
  \<comment> \<open>\<^verbatim>\<open>refs = parts[1].rstrip(",").split(",")\<close> and the loop over \<^verbatim>\<open>refs\<close>\<close>
  "collect_refs s p1 =
     bind_err (add_refs (book_pages s) (split_comma (rstrip_comma p1)))
       (\<lambda>bp. Inr (s\<lparr>book_pages := bp\<rparr>))"

definition split_step :: "parse_state \<Rightarrow> string \<Rightarrow> py_error + parse_state" where
  \<comment> \<open>the statement \<^verbatim>\<open>if len(parts) > 1: ...\<close>\<close>
  "split_step s line =
     (case split_parts line of
        p0 # p1 # _ \<Rightarrow> collect_refs (capture_subject s line p0) p1
      | _ \<Rightarrow> Inr s)"

definition flush_check :: "parse_state \<Rightarrow> string \<Rightarrow> py_error + parse_state" where
  \<comment> \<open>the statement \<^verbatim>\<open>if not line.endswith(",") and current_subject: ...\<close>\<close>
  "flush_check s line =
     (if \<not> endswith_comma line \<and> current_subject s \<noteq> []
      then bind_err (append_row s) (\<lambda>s1. Inr (reset s1))
      else Inr s)"

definition content_line :: "parse_state \<Rightarrow> string \<Rightarrow> py_error + parse_state" where
  \<comment> \<open>the \<^verbatim>\<open>else\<close> branch of the loop body\<close>
  "content_line s line = bind_err (split_step s line) (\<lambda>s1. flush_check s1 line)"

definition is_divider :: "string \<Rightarrow> bool" where
  "is_divider line \<longleftrightarrow> length line = 1 \<and> isalpha line"

definition process_line :: "parse_state \<Rightarrow> string \<Rightarrow> py_error + parse_state" where
  \<comment> \<open>the body of \<^verbatim>\<open>for line in lines\<close>\<close>
  "process_line s raw =
     (let line = strip raw in
      if line = [] then Inr s
      else if is_divider line then divider_line s line
      else content_line s line)"

fun parse_loop :: "parse_state \<Rightarrow> string list \<Rightarrow> py_error + parse_state" where
  "parse_loop s [] = Inr s"
| "parse_loop s (l # ls) = bind_err (process_line s l) (\<lambda>s'. parse_loop s' ls)"

definition init_state :: parse_state where
  "init_state = \<lparr>data = [], current_subject = [], book_pages = new_book_pages\<rparr>"

definition final_flush :: "parse_state \<Rightarrow> py_error + string list list" where
  \<comment> \<open>\<^verbatim>\<open>if current_subject: data.append(...)\<close> and \<^verbatim>\<open>return data\<close>\<close>
  "final_flush s =
     bind_err (if current_subject s \<noteq> [] then append_row s else Inr s) (\<lambda>s1. Inr (data s1))"

definition parse_index :: "string list \<Rightarrow> py_error + string list list" where
  "parse_index lines = bind_err (parse_loop init_state lines) final_flush"

subsection \<open>Observations on the parsing state\<close>

text \<open>
  These are not functions of the source: they name what the theorems below say about a
  state. \<open>has_books\<close> says that the dictionary has its six keys, \<open>book_list\<close> reads one
  page list, and \<open>row_of\<close> is the row that the source builds from a state whose
  dictionary has its keys.
\<close>

definition has_books :: "(int \<rightharpoonup> string list) \<Rightarrow> bool" where
  "has_books bp \<longleftrightarrow>
     bp 1 \<noteq> None \<and> bp 2 \<noteq> None \<and> bp 3 \<noteq> None \<and> bp 4 \<noteq> None \<and> bp 5 \<noteq> None \<and> bp 6 \<noteq> None"

definition book_list :: "(int \<rightharpoonup> string list) \<Rightarrow> int \<Rightarrow> string list" where
  "book_list bp i = (case bp i of None \<Rightarrow> [] | Some ps \<Rightarrow> ps)"

definition row_of :: "parse_state \<Rightarrow> string list" where
  "row_of s = current_subject s # map (\<lambda>i. format_pages (book_list (book_pages s) i)) [1, 2, 3, 4, 5, 6]"

definition observe :: "parse_state \<Rightarrow> string list list \<times> string \<times> string list option list" where
  \<comment> \<open>the rows so far, the subject, and the six entries of the dictionary\<close>
  "observe s = (data s, current_subject s, map (book_pages s) [1, 2, 3, 4, 5, 6])"

subsection \<open>The driver's calls\<close>

definition convert_file :: "string \<Rightarrow> string \<Rightarrow> py_error + string list list" where
  \<comment> \<open>\<^verbatim>\<open>lines = extract_text(file)\<close>, then
      \<^verbatim>\<open>if not lines: raise ValueError("No index data found after marker")\<close>, then
      \<^verbatim>\<open>parse_index(lines)\<close>\<close>
  "convert_file ext full_text =
     bind_err (extract_text ext full_text)
       (\<lambda>lines. if lines = [] then Inl ValueError else parse_index lines)"


subsection \<open>The specification's words\<close>

text \<open>
  The page-reference pattern as the specification writes it: a token that is an integer,
  optional whitespace, a colon, optional whitespace and a token without whitespace.
  \<open>match_ref\<close> above is the regular expression of the source, which is matched at the
  start of a token and leaves what follows the page string unread; \<open>ref_at_start\<close>
  says that in the words of the pattern. The two are compared below.
\<close>

definition matches_pattern :: "string \<Rightarrow> string \<Rightarrow> string \<Rightarrow> bool" where
  "matches_pattern t book pages \<longleftrightarrow>
     (\<exists>w1 w2.
        t = book @ w1 @ [CHR '':''] @ w2 @ pages \<and>
        book \<noteq> [] \<and> list_all is_digit book \<and>
        list_all is_space w1 \<and> list_all is_space w2 \<and>
        pages \<noteq> [] \<and> list_all (\<lambda>c. \<not> is_space c) pages)"

definition is_page_reference :: "string \<Rightarrow> bool" where
  "is_page_reference t \<longleftrightarrow> (\<exists>book pages. matches_pattern t book pages)"

definition ref_at_start :: "string \<Rightarrow> string \<Rightarrow> string \<Rightarrow> bool" where
  \<comment> \<open>\<open>t\<close> is a page reference, or a page reference and then whitespace and more\<close>
  "ref_at_start t book pages \<longleftrightarrow>
     (\<exists>t0 rest. t = t0 @ rest \<and> (rest = [] \<or> is_space (hd rest)) \<and>
        matches_pattern t0 book pages)"

definition short_book :: "string \<Rightarrow> bool" where
  \<comment> \<open>the book number of the token, if the token has one, has at most 4300 digits\<close>
  "short_book tok \<longleftrightarrow>
     (case match_ref (strip tok) of
        None \<Rightarrow> True
      | Some (book, pages) \<Rightarrow> length book \<le> max_str_digits)"

definition valid_ref :: "string \<Rightarrow> (int \<times> string) option" where
  \<comment> \<open>the book and the page string of a token that matches with a book from 1 to 6\<close>
  "valid_ref tok =
     (case match_ref (strip tok) of
        None \<Rightarrow> None
      | Some (book, pages) \<Rightarrow>
          if 1 \<le> digits_value book \<and> digits_value book \<le> 6
          then Some (digits_value book, pages) else None)"

definition pages_for :: "int \<Rightarrow> string list \<Rightarrow> string list" where
  \<comment> \<open>the page strings that a list of tokens gives to book \<open>i\<close>, in the order of the tokens\<close>
  "pages_for i toks = map snd (filter (\<lambda>r. fst r = i) (List.map_filter valid_ref toks))"

definition pages_extend :: "(int \<rightharpoonup> string list) \<Rightarrow> (int \<rightharpoonup> string list) \<Rightarrow> bool" where
  \<comment> \<open>every page list of the second dictionary is the one of the first, with more at its end\<close>
  "pages_extend bp bp' \<longleftrightarrow> (\<forall>i. \<exists>more. book_list bp' i = book_list bp i @ more)"

definition first_cut :: "string \<Rightarrow> string \<Rightarrow> string \<Rightarrow> string \<Rightarrow> bool" where
  \<comment> \<open>\<open>pre\<close> and \<open>post\<close> are what stands before and after the first occurrence of \<open>m\<close> in \<open>s\<close>\<close>
  "first_cut m s pre post \<longleftrightarrow>
     s = pre @ m @ post \<and> (\<forall>pre' post'. s = pre' @ m @ post' \<longrightarrow> length pre \<le> length pre')"

section \<open>Basic facts\<close>

lemma bind_err_Inr [simp]: "bind_err (Inr x) f = f x"
  by (simp add: bind_err_def)

lemma bind_err_Inl [simp]: "bind_err (Inl e) f = Inl e"
  by (simp add: bind_err_def)

lemma has_books_new [simp]: "has_books new_book_pages"
  by (simp add: has_books_def new_book_pages_def)

lemma has_books_upd: "has_books bp \<Longrightarrow> has_books (bp(b \<mapsto> ps))"
  by (simp add: has_books_def)

lemma has_books_lookup:
  assumes "has_books bp" and "1 \<le> b" and "b \<le> 6"
  shows "bp b = Some (book_list bp b)"
proof -
  from assms(2,3) have "b \<in> {1, 2, 3, 4, 5, 6}" by auto
  with assms(1) show ?thesis by (auto simp: has_books_def book_list_def)
qed

lemma book_list_upd: "book_list (bp(b \<mapsto> xs)) i = (if i = b then xs else book_list bp i)"
  by (simp add: book_list_def)

lemma book_list_new [simp]: "book_list new_book_pages i = []"
  by (simp add: book_list_def new_book_pages_def)

lemma pages_extend_refl [simp]: "pages_extend bp bp"
  by (simp add: pages_extend_def)

lemma format_books_ok:
  assumes "has_books bp"
  shows "format_books bp [1, 2, 3, 4, 5, 6] =
     Inr (map (\<lambda>i. format_pages (book_list bp i)) [1, 2, 3, 4, 5, 6])"
  using assms by (auto simp: has_books_def book_list_def)

lemma append_row_ok:
  "has_books (book_pages s) \<Longrightarrow> append_row s = Inr (s\<lparr>data := data s @ [row_of s]\<rparr>)"
  by (simp only: append_row_def format_books_ok row_of_def bind_err_Inr)

subsection \<open>The regular expression and the pattern\<close>

lemma digit_not_space: "is_digit c \<Longrightarrow> \<not> is_space c"
  by (auto simp: is_digit_def is_space_def)

lemma colon_class [simp]: "\<not> is_digit (CHR '':'')" "\<not> is_space (CHR '':'')"
  by (simp_all add: is_digit_def is_space_def)

lemma takeWhile_run:
  "list_all P xs \<Longrightarrow> ys = [] \<or> \<not> P (hd ys) \<Longrightarrow> takeWhile P (xs @ ys) = xs"
  by (induction xs) (cases ys; auto)+

lemma dropWhile_run:
  "list_all P xs \<Longrightarrow> ys = [] \<or> \<not> P (hd ys) \<Longrightarrow> dropWhile P (xs @ ys) = ys"
  by (induction xs) (cases ys; auto)+

lemma dropWhile_all: "list_all P xs \<Longrightarrow> dropWhile P (xs @ ys) = dropWhile P ys"
  by (induction xs) auto

lemma takeWhile_all: "list_all P xs \<Longrightarrow> takeWhile P (xs @ ys) = xs @ takeWhile P ys"
  by (induction xs) auto

lemma list_all_takeWhile: "list_all P (takeWhile P xs)"
  by (induction xs) auto

lemma match_ref_decompose:
  assumes "match_ref t = Some (book, pages)"
  shows "\<exists>rest. t = (takeWhile is_digit t @ takeWhile is_space (dropWhile is_digit t) @ [CHR '':''] @
             takeWhile is_space (tl (dropWhile is_space (dropWhile is_digit t))) @ pages) @ rest \<and>
           (rest = [] \<or> is_space (hd rest)) \<and> book = takeWhile is_digit t \<and> book \<noteq> [] \<and>
           pages \<noteq> [] \<and> list_all (\<lambda>c. \<not> is_space c) pages"
proof -
  define r0 where "r0 = dropWhile is_digit t"
  define w1 where "w1 = takeWhile is_space r0"
  define r1 where "r1 = dropWhile is_space r0"
  from assms obtain r2 where r1: "r1 = CHR '':'' # r2"
    by (auto simp: match_ref_def Let_def r1_def r0_def split: list.splits if_splits)
  define w2 where "w2 = takeWhile is_space r2"
  define r3 where "r3 = dropWhile is_space r2"
  define rest where "rest = dropWhile (\<lambda>c. \<not> is_space c) r3"
  from assms r1 have book: "book = takeWhile is_digit t" "book \<noteq> []"
    and pages: "pages = takeWhile (\<lambda>c. \<not> is_space c) r3" "pages \<noteq> []"
    by (auto simp: match_ref_def Let_def r1_def r0_def r3_def split: list.splits if_splits)
  have "t = book @ r0" by (simp add: book r0_def)
  also have "r0 = w1 @ r1" by (simp add: w1_def r1_def)
  also have "r1 = [CHR '':''] @ r2" by (simp add: r1)
  also have "r2 = w2 @ r3" by (simp add: w2_def r3_def)
  also have "r3 = pages @ rest" by (simp add: pages rest_def)
  finally have t: "t = (book @ w1 @ [CHR '':''] @ w2 @ pages) @ rest" by simp
  have r2: "r2 = tl r1" by (simp add: r1)
  have rest: "rest = [] \<or> is_space (hd rest)"
    unfolding rest_def using hd_dropWhile [of "\<lambda>c. \<not> is_space c" r3] by blast
  have "list_all (\<lambda>c. \<not> is_space c) pages" by (simp add: pages list_all_takeWhile)
  with t rest book pages show ?thesis
    unfolding w1_def w2_def r2 r1_def r0_def book(1) by blast
qed

lemma match_ref_sound:
  assumes "match_ref t = Some (book, pages)"
  shows "ref_at_start t book pages"
proof -
  from match_ref_decompose [OF assms] obtain rest where
    t: "t = (book @ takeWhile is_space (dropWhile is_digit t) @ [CHR '':''] @
             takeWhile is_space (tl (dropWhile is_space (dropWhile is_digit t))) @ pages) @ rest"
    and rest: "rest = [] \<or> is_space (hd rest)"
    and book: "book = takeWhile is_digit t" "book \<noteq> []"
    and pages: "pages \<noteq> []" "list_all (\<lambda>c. \<not> is_space c) pages"
    by blast
  have "matches_pattern (book @ takeWhile is_space (dropWhile is_digit t) @ [CHR '':''] @
      takeWhile is_space (tl (dropWhile is_space (dropWhile is_digit t))) @ pages) book pages"
    unfolding matches_pattern_def using book pages
    by (intro exI conjI) (rule refl, simp_all add: list_all_takeWhile)
  with t rest show ?thesis unfolding ref_at_start_def by blast
qed

lemma match_ref_complete:
  assumes "ref_at_start t book pages"
  shows "match_ref t = Some (book, pages)"
proof -
  from assms obtain t0 rest where t0: "t = t0 @ rest"
    and rest: "rest = [] \<or> is_space (hd rest)" and m: "matches_pattern t0 book pages"
    unfolding ref_at_start_def by blast
  from m obtain w1 w2 where t0': "t0 = book @ w1 @ [CHR '':''] @ w2 @ pages"
    and book: "book \<noteq> []" "list_all is_digit book"
    and ws: "list_all is_space w1" "list_all is_space w2"
    and pages: "pages \<noteq> []" "list_all (\<lambda>c. \<not> is_space c) pages"
    unfolding matches_pattern_def by blast
  have t: "t = book @ w1 @ [CHR '':''] @ w2 @ pages @ rest" by (simp add: t0 t0')
  have nd: "w1 @ [CHR '':''] @ w2 @ pages @ rest = [] \<or>
      \<not> is_digit (hd (w1 @ [CHR '':''] @ w2 @ pages @ rest))"
    using ws(1) by (cases w1) (auto dest: digit_not_space)
  have tw: "takeWhile is_digit t = book"
    unfolding t by (rule takeWhile_run [OF book(2) nd])
  have dw: "dropWhile is_digit t = w1 @ [CHR '':''] @ w2 @ pages @ rest"
    unfolding t by (rule dropWhile_run [OF book(2) nd])
  have r1: "dropWhile is_space (dropWhile is_digit t) = CHR '':'' # w2 @ pages @ rest"
    unfolding dw using ws(1) by (simp add: dropWhile_all)
  have "\<not> is_space (hd pages)" using pages by (cases pages) auto
  then have r3: "dropWhile is_space (w2 @ pages @ rest) = pages @ rest"
    using ws(2) pages(1) by (cases pages) (simp_all add: dropWhile_all)
  have "rest = [] \<or> \<not> (\<not> is_space (hd rest))" using rest by simp
  with pages(2) have pg: "takeWhile (\<lambda>c. \<not> is_space c) (pages @ rest) = pages"
    by (rule takeWhile_run)
  show ?thesis
    using book(1) pages(1) by (simp add: match_ref_def tw r1 r3 pg)
qed

lemma match_ref_iff: "match_ref t = Some (book, pages) \<longleftrightarrow> ref_at_start t book pages"
  using match_ref_sound match_ref_complete by blast

lemma matches_pattern_start: "matches_pattern t book pages \<Longrightarrow> ref_at_start t book pages"
  unfolding ref_at_start_def by (intro exI [of _ t] exI [of _ "[]"]) simp

lemma matches_pattern_last:
  "matches_pattern t book pages \<Longrightarrow> t \<noteq> [] \<and> last t = last pages"
  unfolding matches_pattern_def by auto

subsection \<open>The loop over the reference tokens\<close>

lemma int_of_digits_short:
  "length book \<le> max_str_digits \<Longrightarrow> int_of_digits book = Inr (digits_value book)"
  by (simp add: int_of_digits_def)

lemma add_ref_valid:
  assumes "has_books bp" and "short_book tok"
  shows "add_ref bp tok =
     Inr (case valid_ref tok of
            None \<Rightarrow> bp
          | Some (b, pages) \<Rightarrow> bp(b \<mapsto> book_list bp b @ [pages]))"
proof (cases "match_ref (strip tok)")
  case None
  then show ?thesis by (simp add: add_ref_def valid_ref_def)
next
  case (Some bk)
  obtain book pages where bk: "bk = (book, pages)" by (cases bk)
  from assms(2) Some bk have "int_of_digits book = Inr (digits_value book)"
    by (simp add: short_book_def int_of_digits_short)
  then show ?thesis using Some bk assms(1)
    by (simp add: add_ref_def valid_ref_def has_books_lookup)
qed

lemma add_ref_long: "\<not> short_book tok \<Longrightarrow> add_ref bp tok = Inl ValueError"
  by (auto simp: short_book_def add_ref_def int_of_digits_def split: option.splits)

lemma pages_extend_upd: "pages_extend bp (bp(b \<mapsto> book_list bp b @ xs))"
  unfolding pages_extend_def by (simp add: book_list_upd)

lemma pages_extend_trans:
  "pages_extend a b \<Longrightarrow> pages_extend b c \<Longrightarrow> pages_extend a c"
  unfolding pages_extend_def by (metis append.assoc)

lemma add_ref_Inr:
  assumes "has_books bp" and "add_ref bp tok = Inr bp'"
  shows "has_books bp' \<and> pages_extend bp bp'"
proof (cases "short_book tok")
  case True
  from add_ref_valid [OF assms(1) True] assms(2)
  have "bp' = (case valid_ref tok of None \<Rightarrow> bp
      | Some (b, pages) \<Rightarrow> bp(b \<mapsto> book_list bp b @ [pages]))" by simp
  then show ?thesis using assms(1)
    by (auto simp: has_books_upd pages_extend_upd split: option.splits)
next
  case False
  with assms(2) show ?thesis by (simp add: add_ref_long)
qed

lemma pages_for_Nil [simp]: "pages_for i [] = []"
  by (simp add: pages_for_def List.map_filter_simps)

lemma pages_for_Cons:
  "pages_for i (tok # toks) =
     (case valid_ref tok of
        None \<Rightarrow> pages_for i toks
      | Some (b, pages) \<Rightarrow> if b = i then pages # pages_for i toks else pages_for i toks)"
  by (simp add: pages_for_def List.map_filter_simps split: option.splits)

lemma add_refs_pages:
  "has_books bp \<Longrightarrow> list_all short_book toks \<Longrightarrow>
   \<exists>bp'. add_refs bp toks = Inr bp' \<and> has_books bp' \<and>
         (\<forall>i. book_list bp' i = book_list bp i @ pages_for i toks)"
proof (induction toks arbitrary: bp)
  case Nil
  then show ?case by simp
next
  case (Cons tok toks)
  from Cons.prems(2) have ok: "short_book tok" and oks: "list_all short_book toks" by simp_all
  show ?case
  proof (cases "valid_ref tok")
    case None
    then have "add_ref bp tok = Inr bp" using Cons.prems(1) ok by (simp add: add_ref_valid)
    with Cons.IH [OF Cons.prems(1) oks] None show ?thesis by (simp add: pages_for_Cons)
  next
    case (Some bk)
    obtain b pages where bk: "bk = (b, pages)" by (cases bk)
    let ?bp1 = "bp(b \<mapsto> book_list bp b @ [pages])"
    have 1: "add_ref bp tok = Inr ?bp1"
      using Cons.prems(1) ok Some bk by (simp add: add_ref_valid)
    have "has_books ?bp1" using Cons.prems(1) by (rule has_books_upd)
    from Cons.IH [OF this oks] obtain bp' where
      "add_refs ?bp1 toks = Inr bp'" "has_books bp'"
      "\<forall>i. book_list bp' i = book_list ?bp1 i @ pages_for i toks" by blast
    then show ?thesis using 1 Some bk by (simp add: pages_for_Cons book_list_upd)
  qed
qed

lemma add_refs_Inr:
  "has_books bp \<Longrightarrow> add_refs bp toks = Inr bp' \<Longrightarrow> has_books bp' \<and> pages_extend bp bp'"
proof (induction toks arbitrary: bp)
  case Nil
  then show ?case by simp
next
  case (Cons tok toks)
  from Cons.prems(2) obtain bp1 where 1: "add_ref bp tok = Inr bp1"
    and 2: "add_refs bp1 toks = Inr bp'"
    by (cases "add_ref bp tok") simp_all
  from add_ref_Inr [OF Cons.prems(1) 1] have h: "has_books bp1" and e: "pages_extend bp bp1"
    by simp_all
  from Cons.IH [OF h 2] e show ?case by (auto intro: pages_extend_trans)
qed

subsection \<open>One line, then all lines\<close>

lemma capture_subject_pages [simp]: "book_pages (capture_subject s line p0) = book_pages s"
  by (simp add: capture_subject_def)

lemma capture_subject_data [simp]: "data (capture_subject s line p0) = data s"
  by (simp add: capture_subject_def)

lemma split_step_Inr:
  assumes "has_books (book_pages s)" and "split_step s line = Inr s1"
  shows "has_books (book_pages s1) \<and> data s1 = data s \<and>
         pages_extend (book_pages s) (book_pages s1) \<and>
         (current_subject s1 = current_subject s \<or>
          current_subject s = [] \<and> \<not> endswith_comma line)"
proof (cases "split_parts line")
  case Nil
  then show ?thesis using assms by (simp add: split_step_def)
next
  case (Cons p0 ps)
  note parts = Cons
  show ?thesis
  proof (cases ps)
    case Nil
    then show ?thesis using parts assms by (simp add: split_step_def)
  next
    case (Cons p1 qs)
    let ?c = "capture_subject s line p0"
    from assms(2) parts Cons have c: "collect_refs ?c p1 = Inr s1"
      by (simp add: split_step_def)
    then obtain bp where bp: "add_refs (book_pages s) (split_comma (rstrip_comma p1)) = Inr bp"
      and s1: "s1 = ?c\<lparr>book_pages := bp\<rparr>"
      by (cases "add_refs (book_pages s) (split_comma (rstrip_comma p1))")
        (auto simp: collect_refs_def)
    from add_refs_Inr [OF assms(1) bp] show ?thesis
      by (auto simp: s1 capture_subject_def)
  qed
qed

lemma flush_check_ok:
  assumes "has_books (book_pages s)"
  shows "flush_check s line =
     Inr (if \<not> endswith_comma line \<and> current_subject s \<noteq> []
          then \<lparr>data = data s @ [row_of s], current_subject = [], book_pages = new_book_pages\<rparr>
          else s)"
  using assms by (simp add: flush_check_def append_row_ok reset_def)

lemma divider_line_ok:
  assumes "has_books (book_pages s)"
  shows "divider_line s line =
     Inr \<lparr>data = data s @ (if current_subject s \<noteq> [] then [row_of s] else []) @
                  [[line, [], [], [], [], [], []]],
          current_subject = [], book_pages = new_book_pages\<rparr>"
  using assms by (simp add: divider_line_def append_row_ok reset_def numeral_eq_Suc)

lemma content_line_Inr:
  assumes "has_books (book_pages s)" and "content_line s line = Inr s'"
  shows "has_books (book_pages s') \<and>
         (current_subject s = [] \<longrightarrow> current_subject s' = []) \<and>
         (current_subject s' = [] \<and> book_pages s' = new_book_pages \<or>
          current_subject s' = current_subject s \<and>
          pages_extend (book_pages s) (book_pages s'))"
proof -
  from assms(2) obtain s1 where s1: "split_step s line = Inr s1"
    and f: "flush_check s1 line = Inr s'"
    by (cases "split_step s line") (simp_all add: content_line_def)
  from split_step_Inr [OF assms(1) s1] have h: "has_books (book_pages s1)"
    and e: "pages_extend (book_pages s) (book_pages s1)"
    and c: "current_subject s1 = current_subject s \<or>
        current_subject s = [] \<and> \<not> endswith_comma line"
    by simp_all
  from f have "s' = (if \<not> endswith_comma line \<and> current_subject s1 \<noteq> []
      then \<lparr>data = data s1 @ [row_of s1], current_subject = [], book_pages = new_book_pages\<rparr>
      else s1)"
    by (simp add: flush_check_ok [OF h])
  with h e c show ?thesis by auto
qed

lemma process_line_Inr:
  assumes "has_books (book_pages s)" and "process_line s raw = Inr s'"
  shows "has_books (book_pages s') \<and>
         (current_subject s = [] \<longrightarrow> current_subject s' = []) \<and>
         (current_subject s' = [] \<and> book_pages s' = new_book_pages \<or>
          current_subject s' = current_subject s \<and>
          pages_extend (book_pages s) (book_pages s'))"
proof (cases "strip raw = []")
  case True
  with assms show ?thesis by (simp add: process_line_def)
next
  case False
  show ?thesis
  proof (cases "is_divider (strip raw)")
    case True
    with False assms show ?thesis by (auto simp: process_line_def divider_line_ok)
  next
    case False
    with \<open>strip raw \<noteq> []\<close> assms(2) have "content_line s (strip raw) = Inr s'"
      by (simp add: process_line_def)
    with assms(1) show ?thesis by (rule content_line_Inr)
  qed
qed

lemma parse_loop_Inr:
  "has_books (book_pages s) \<Longrightarrow> current_subject s = [] \<Longrightarrow> parse_loop s ls = Inr s' \<Longrightarrow>
   has_books (book_pages s') \<and> current_subject s' = []"
proof (induction ls arbitrary: s)
  case Nil
  then show ?case by simp
next
  case (Cons l ls)
  from Cons.prems(3) obtain s1 where 1: "process_line s l = Inr s1"
    and 2: "parse_loop s1 ls = Inr s'"
    by (cases "process_line s l") simp_all
  from process_line_Inr [OF Cons.prems(1) 1] Cons.prems(2)
  have "has_books (book_pages s1)" "current_subject s1 = []" by simp_all
  then show ?case using 2 by (rule Cons.IH)
qed

lemma reached_state:
  assumes "parse_loop init_state ls = Inr s"
  shows "has_books (book_pages s) \<and> current_subject s = []"
proof -
  have "has_books (book_pages init_state)" "current_subject init_state = []"
    by (simp_all add: init_state_def)
  then show ?thesis using assms by (rule parse_loop_Inr)
qed

lemma parse_loop_append:
  "parse_loop s (xs @ ys) = bind_err (parse_loop s xs) (\<lambda>s'. parse_loop s' ys)"
proof (induction xs arbitrary: s)
  case Nil
  show ?case by simp
next
  case (Cons x xs)
  show ?case by (cases "process_line s x") (simp_all add: Cons.IH)
qed

lemma parse_loop_snoc:
  "parse_loop s (xs @ [l]) = bind_err (parse_loop s xs) (\<lambda>s'. process_line s' l)"
proof -
  have "parse_loop s' [l] = process_line s' l" for s'
    by (cases "process_line s' l") simp_all
  then show ?thesis by (simp add: parse_loop_append)
qed

lemma final_flush_empty: "current_subject s = [] \<Longrightarrow> final_flush s = Inr (data s)"
  by (simp add: final_flush_def)

lemma parse_index_reached:
  "parse_index ls = Inr rows \<longleftrightarrow> (\<exists>s. parse_loop init_state ls = Inr s \<and> data s = rows)"
proof (cases "parse_loop init_state ls")
  case (Inl e)
  then show ?thesis by (simp add: parse_index_def)
next
  case (Inr s)
  from reached_state [OF Inr] have "final_flush s = Inr (data s)" by (simp add: final_flush_empty)
  with Inr show ?thesis by (auto simp: parse_index_def)
qed

lemma parse_index_snoc:
  assumes "parse_loop init_state pre = Inr s"
  shows "parse_index (pre @ [raw]) = bind_err (process_line s raw) (\<lambda>s'. Inr (data s'))"
proof (cases "process_line s raw")
  case (Inl e)
  with assms show ?thesis by (simp add: parse_index_def parse_loop_snoc)
next
  case (Inr s')
  from reached_state [OF assms] have "has_books (book_pages s)" "current_subject s = []" by simp_all
  with process_line_Inr [OF _ Inr] have "current_subject s' = []" by simp
  then have "final_flush s' = Inr (data s')" by (rule final_flush_empty)
  with assms Inr show ?thesis by (simp add: parse_index_def parse_loop_snoc)
qed

section \<open>Evaluation on concrete inputs\<close>

lemmas string_defs = strip_def lstrip_def rstrip_def is_space_def is_digit_def isalpha_def
  endswith_comma_def rstrip_comma_def split_tab1_def split_none1_def int_of_digits_def
  digits_value_def max_str_digits_def

lemma replicate_six: "replicate 6 x = [x, x, x, x, x, x]"
  by (simp add: numeral_eq_Suc)

lemmas parser_defs = replicate_six parse_index_def init_state_def process_line_def is_divider_def
  content_line_def split_step_def split_parts_def capture_subject_def collect_refs_def
  add_ref_def match_ref_def flush_check_def final_flush_def divider_line_def append_row_def
  reset_def new_book_pages_def format_pages_def observe_def Let_def

section \<open>Trimmed lines and their parts\<close>

lemma tab_is_space [simp]: "is_space (CHR 0x09)"
  by (simp add: is_space_def)

lemma rstrip_prefix: "rstrip y @ rev (takeWhile is_space (rev y)) = y"
proof -
  have "rev (takeWhile is_space (rev y) @ dropWhile is_space (rev y)) = y"
    by (simp only: takeWhile_dropWhile_id rev_rev_ident)
  then show ?thesis by (simp only: rstrip_def rev_append)
qed

lemma rstrip_Nil_iff: "rstrip y = [] \<longleftrightarrow> list_all is_space y"
  by (simp add: rstrip_def dropWhile_eq_Nil_conv list_all_iff)

lemma lstrip_Nil_iff: "lstrip x = [] \<longleftrightarrow> list_all is_space x"
  by (simp add: lstrip_def dropWhile_eq_Nil_conv list_all_iff)

lemma lstrip_hd: "lstrip x \<noteq> [] \<Longrightarrow> \<not> is_space (hd (lstrip x))"
  unfolding lstrip_def by (rule hd_dropWhile)


lemma strip_hd:
  assumes "strip raw \<noteq> []"
  shows "\<not> is_space (hd (strip raw))"
proof -
  define y where "y = lstrip raw"
  define z where "z = rev (takeWhile is_space (rev y))"
  have r: "strip raw = rstrip y" by (simp only: strip_def y_def)
  have "rstrip y @ z = y" unfolding z_def by (rule rstrip_prefix)
  then have yz: "y = strip raw @ z" by (simp only: r)
  with assms have y: "y \<noteq> []" by auto
  have "hd y = hd (strip raw @ z)" by (subst yz) (rule refl)
  also have "\<dots> = hd (strip raw)" using assms by (rule hd_append2)
  finally have "hd (strip raw) = hd (lstrip raw)" by (simp only: y_def)
  moreover have "\<not> is_space (hd (lstrip raw))" using y unfolding y_def by (rule lstrip_hd)
  ultimately show ?thesis by simp
qed

lemma strip_Nil_iff: "strip x = [] \<longleftrightarrow> list_all is_space x"
proof
  assume a: "strip x = []"
  show "list_all is_space x"
  proof (rule ccontr)
    assume "\<not> list_all is_space x"
    then have y: "lstrip x \<noteq> []" by (simp only: lstrip_Nil_iff not_False_eq_True)
    from a have "rstrip (lstrip x) = []" by (simp only: strip_def)
    then have "list_all is_space (lstrip x)" by (simp only: rstrip_Nil_iff)
    with y have "is_space (hd (lstrip x))" by (cases "lstrip x") simp_all
    with lstrip_hd [OF y] show False by simp
  qed
next
  assume "list_all is_space x"
  then have "lstrip x = []" by (simp only: lstrip_Nil_iff)
  then show "strip x = []" by (simp add: strip_def rstrip_def)
qed


lemma single_token_parts:
  assumes "line \<noteq> []" and "\<not> list_ex is_space line"
  shows "split_parts line = [line]"
proof -
  from assms(2) have ns: "\<forall>c\<in>set line. \<not> is_space c" by (simp add: list_ex_iff)
  then have notab: "CHR 0x09 \<notin> set line" using tab_is_space by blast
  from ns assms(1) have d: "dropWhile is_space line = line" by (cases line) auto
  from ns have t: "takeWhile (\<lambda>c. \<not> is_space c) line = line"
    by (simp add: takeWhile_eq_all_conv)
  from ns have e: "dropWhile (\<lambda>c. \<not> is_space c) line = []"
    by (simp add: dropWhile_eq_Nil_conv)
  have "split_none1 line = [line]"
    unfolding split_none1_def Let_def d t e using assms(1) by simp
  with notab show ?thesis by (simp add: split_parts_def)
qed

lemma first_part_tab:
  assumes "CHR 0x09 \<in> set (c # cs)" "split_parts (c # cs) = p0 # p1 # qs"
  shows "p0 = takeWhile (\<lambda>c. c \<noteq> CHR 0x09) (c # cs)"
proof -
  from assms(1) have "split_parts (c # cs) = split_tab1 (c # cs)"
    unfolding split_parts_def by (rule if_P)
  also from assms(1) have "\<dots> = [takeWhile (\<lambda>c. c \<noteq> CHR 0x09) (c # cs),
      tl (dropWhile (\<lambda>c. c \<noteq> CHR 0x09) (c # cs))]"
    unfolding split_tab1_def by (rule if_P)
  finally show ?thesis using assms(2) by (simp only: list.inject)
qed


lemma first_part_word:
  assumes "\<not> is_space c" "CHR 0x09 \<notin> set (c # cs)" "split_parts (c # cs) = p0 # p1 # qs"
  shows "p0 = takeWhile (\<lambda>c. \<not> is_space c) (c # cs)"
proof -
  define w where "w = takeWhile (\<lambda>c. \<not> is_space c) (c # cs)"
  define r where "r = dropWhile is_space (dropWhile (\<lambda>c. \<not> is_space c) (c # cs))"
  have dl: "dropWhile is_space (c # cs) = c # cs" using assms(1) by simp
  from assms(2) have "split_parts (c # cs) = split_none1 (c # cs)"
    unfolding split_parts_def by (rule if_not_P)
  also have "\<dots> = (if r = [] then [w] else [w, r])"
    unfolding split_none1_def Let_def dl w_def r_def by simp
  finally have "(if r = [] then [w] else [w, r]) = p0 # p1 # qs" using assms(3) by simp
  then have "p0 = w" by (cases "r = []") simp_all
  then show ?thesis by (simp only: w_def)
qed


lemma first_part_not_blank:
  assumes "strip raw \<noteq> []" and "split_parts (strip raw) = p0 # p1 # qs"
  shows "strip p0 \<noteq> []"
proof -
  from assms(1) obtain c cs where line: "strip raw = c # cs" by (cases "strip raw") auto
  have "\<not> is_space (hd (strip raw))" using assms(1) by (rule strip_hd)
  then have c: "\<not> is_space c" unfolding line list.sel .
  from assms(2) have parts: "split_parts (c # cs) = p0 # p1 # qs" by (simp only: line)
  have "c \<in> set p0"
  proof (cases "CHR 0x09 \<in> set (c # cs)")
    case True
    then have "p0 = takeWhile (\<lambda>c. c \<noteq> CHR 0x09) (c # cs)" using parts by (rule first_part_tab)
    moreover have "c \<noteq> CHR 0x09" using c tab_is_space by auto
    ultimately show ?thesis by simp
  next
    case False
    with c have "p0 = takeWhile (\<lambda>c. \<not> is_space c) (c # cs)" using parts by (rule first_part_word)
    with c show ?thesis by simp
  qed
  with c have "\<not> list_all is_space p0" by (auto simp: list_all_iff)
  then show ?thesis by (simp only: strip_Nil_iff not_False_eq_True)
qed

section \<open>What one line does\<close>

lemma length_strip_le: "length (strip x) \<le> length x"
proof -
  have "length (strip x) \<le> length (lstrip x)"
    unfolding strip_def rstrip_def using length_dropWhile_le [of is_space "rev (lstrip x)"] by simp
  also have "\<dots> \<le> length x" unfolding lstrip_def by (rule length_dropWhile_le)
  finally show ?thesis .
qed

lemma takeWhile_shorter: "dropWhile P xs \<noteq> [] \<Longrightarrow> length (takeWhile P xs) < length xs"
proof -
  assume a: "dropWhile P xs \<noteq> []"
  have "length (takeWhile P xs) + length (dropWhile P xs) = length xs"
    by (simp only: length_append [symmetric] takeWhile_dropWhile_id)
  with a show ?thesis by (cases "dropWhile P xs") auto
qed

lemma first_part_shorter:
  assumes "\<not> is_space c" and "split_parts (c # cs) = p0 # p1 # qs"
  shows "length p0 < length (c # cs)"
proof (cases "CHR 0x09 \<in> set (c # cs)")
  case True
  then have p0: "p0 = takeWhile (\<lambda>c. c \<noteq> CHR 0x09) (c # cs)" using assms(2) by (rule first_part_tab)
  from True have "dropWhile (\<lambda>c. c \<noteq> CHR 0x09) (c # cs) \<noteq> []"
    by (simp only: dropWhile_eq_Nil_conv) blast
  then show ?thesis unfolding p0 by (rule takeWhile_shorter)
next
  case False
  define w where "w = takeWhile (\<lambda>c. \<not> is_space c) (c # cs)"
  define r where "r = dropWhile is_space (dropWhile (\<lambda>c. \<not> is_space c) (c # cs))"
  have dl: "dropWhile is_space (c # cs) = c # cs" using assms(1) by simp
  from False have "split_parts (c # cs) = split_none1 (c # cs)"
    unfolding split_parts_def by (rule if_not_P)
  also have "\<dots> = (if r = [] then [w] else [w, r])"
    unfolding split_none1_def Let_def dl w_def r_def by simp
  finally have e: "(if r = [] then [w] else [w, r]) = p0 # p1 # qs" using assms(2) by simp
  then have r: "r \<noteq> []" and p0: "p0 = w" by (cases "r = []"; simp)+
  have "dropWhile (\<lambda>c. \<not> is_space c) (c # cs) \<noteq> []"
  proof
    assume "dropWhile (\<lambda>c. \<not> is_space c) (c # cs) = []"
    then have "r = []" by (simp only: r_def dropWhile.simps)
    with r show False by simp
  qed
  then show ?thesis unfolding p0 w_def by (rule takeWhile_shorter)
qed

lemma first_part_differs:
  assumes "strip raw \<noteq> []" and "split_parts (strip raw) = p0 # p1 # qs"
  shows "strip p0 \<noteq> strip raw" and "1 < length (strip raw)"
proof -
  from assms(1) obtain c cs where line: "strip raw = c # cs" by (cases "strip raw") auto
  have "\<not> is_space (hd (strip raw))" using assms(1) by (rule strip_hd)
  then have c: "\<not> is_space c" unfolding line list.sel .
  from assms(2) have "split_parts (c # cs) = p0 # p1 # qs" by (simp only: line)
  with c have "length p0 < length (c # cs)" by (rule first_part_shorter)
  then have l: "length p0 < length (strip raw)" by (simp only: line)
  with length_strip_le [of p0] have "length (strip p0) < length (strip raw)" by simp
  then show "strip p0 \<noteq> strip raw" by auto
  from first_part_not_blank [OF assms] have "p0 \<noteq> []" by (auto simp: strip_def lstrip_def rstrip_def)
  with l show "1 < length (strip raw)" by (cases p0) auto
qed

lemma two_parts_not_divider:
  assumes "strip raw \<noteq> []" and "split_parts (strip raw) = p0 # p1 # qs"
  shows "\<not> is_divider (strip raw)"
  using first_part_differs(2) [OF assms] by (simp add: is_divider_def)

lemma is_divider_iff: "is_divider line \<longleftrightarrow> (\<exists>c. line = [c] \<and> is_alpha c)"
  by (cases line) (auto simp: is_divider_def isalpha_def)

lemma split_step_one_part:
  "length (split_parts line) \<le> 1 \<Longrightarrow> split_step s line = Inr s"
  by (cases "split_parts line"; cases "tl (split_parts line)") (auto simp: split_step_def)

lemma split_step_two_parts:
  assumes "has_books (book_pages s)" and "split_parts line = p0 # p1 # qs"
    and "list_all short_book (split_comma (rstrip_comma p1))"
  shows "\<exists>bp. has_books bp \<and>
           (\<forall>i. book_list bp i =
                book_list (book_pages s) i @ pages_for i (split_comma (rstrip_comma p1))) \<and>
           split_step s line = Inr (capture_subject s line p0\<lparr>book_pages := bp\<rparr>)"
proof -
  from add_refs_pages [OF assms(1,3)] obtain bp where
    "add_refs (book_pages s) (split_comma (rstrip_comma p1)) = Inr bp" "has_books bp"
    "\<forall>i. book_list bp i = book_list (book_pages s) i @ pages_for i (split_comma (rstrip_comma p1))"
    by blast
  then show ?thesis using assms(2) by (auto simp: split_step_def collect_refs_def)
qed

lemma content_line_two_parts:
  assumes "has_books (book_pages s)" and "current_subject s = []"
    and "strip raw \<noteq> []" and "split_parts (strip raw) = p0 # p1 # qs"
    and "list_all short_book (split_comma (rstrip_comma p1))"
  shows "\<exists>bp. has_books bp \<and>
           (\<forall>i. book_list bp i =
                book_list (book_pages s) i @ pages_for i (split_comma (rstrip_comma p1))) \<and>
           process_line s raw =
             Inr (if endswith_comma (strip raw) then s\<lparr>book_pages := bp\<rparr>
                  else \<lparr>data = data s @
                           [strip p0 # map (\<lambda>i. format_pages (book_list bp i)) [1, 2, 3, 4, 5, 6]],
                        current_subject = [], book_pages = new_book_pages\<rparr>)"
proof -
  let ?line = "strip raw"
  from split_step_two_parts [OF assms(1,4,5)] obtain bp where h: "has_books bp"
    and pg: "\<forall>i. book_list bp i =
        book_list (book_pages s) i @ pages_for i (split_comma (rstrip_comma p1))"
    and ss: "split_step s ?line = Inr (capture_subject s ?line p0\<lparr>book_pages := bp\<rparr>)"
    by blast
  have nd: "\<not> is_divider ?line" using assms(3,4) by (rule two_parts_not_divider)
  have ne: "strip p0 \<noteq> []" using assms(3,4) by (rule first_part_not_blank)
  have pl: "process_line s raw = flush_check (capture_subject s ?line p0\<lparr>book_pages := bp\<rparr>) ?line"
    using assms(3) nd ss by (simp add: process_line_def content_line_def Let_def)
  have "flush_check (capture_subject s ?line p0\<lparr>book_pages := bp\<rparr>) ?line =
      Inr (if endswith_comma ?line then s\<lparr>book_pages := bp\<rparr>
           else \<lparr>data = data s @
                    [strip p0 # map (\<lambda>i. format_pages (book_list bp i)) [1, 2, 3, 4, 5, 6]],
                 current_subject = [], book_pages = new_book_pages\<rparr>)"
  proof (cases "endswith_comma ?line")
    case True
    then have c: "capture_subject s ?line p0 = s" by (simp add: capture_subject_def)
    show ?thesis using True h assms(2) by (simp add: c flush_check_ok)
  next
    case False
    then have c: "capture_subject s ?line p0 = s\<lparr>current_subject := strip p0\<rparr>"
      using assms(2) by (simp add: capture_subject_def)
    show ?thesis using False h ne by (simp add: c flush_check_ok row_of_def)
  qed
  with pl h pg show ?thesis by auto
qed

lemma content_line_rows:
  assumes "has_books (book_pages s)" and "current_subject s = []"
    and "strip raw \<noteq> []" and "\<not> is_divider (strip raw)" and "process_line s raw = Inr s'"
  shows "data s' = data s \<and>
           (length (split_parts (strip raw)) \<le> 1 \<or> endswith_comma (strip raw)) \<or>
         (\<exists>p0 p1 qs fs. split_parts (strip raw) = p0 # p1 # qs \<and>
            \<not> endswith_comma (strip raw) \<and> data s' = data s @ [strip p0 # fs])"
proof -
  let ?line = "strip raw"
  from assms(3,4,5) have cl: "content_line s ?line = Inr s'"
    by (simp add: process_line_def Let_def)
  then obtain s1 where s1: "split_step s ?line = Inr s1" and f: "flush_check s1 ?line = Inr s'"
    by (cases "split_step s ?line") (simp_all add: content_line_def)
  from split_step_Inr [OF assms(1) s1] have h: "has_books (book_pages s1)"
    and d: "data s1 = data s" by simp_all
  show ?thesis
  proof (cases "split_parts ?line")
    case Nil
    then have "split_step s ?line = Inr s" by (simp add: split_step_one_part)
    with s1 f assms(1,2) Nil show ?thesis by (simp add: flush_check_ok)
  next
    case (Cons p0 ps)
    note parts = Cons
    show ?thesis
    proof (cases ps)
      case Nil
      with parts have "split_step s ?line = Inr s" by (simp add: split_step_one_part)
      with s1 f assms(1,2) parts Nil show ?thesis by (simp add: flush_check_ok)
    next
      case (Cons p1 qs)
      from s1 parts Cons have c: "collect_refs (capture_subject s ?line p0) p1 = Inr s1"
        by (simp add: split_step_def)
      then have cs: "current_subject s1 = current_subject (capture_subject s ?line p0)"
        by (cases "add_refs (book_pages s) (split_comma (rstrip_comma p1))")
          (auto simp: collect_refs_def)
      have ne: "strip p0 \<noteq> []" using assms(3) parts Cons by (simp add: first_part_not_blank)
      show ?thesis
      proof (cases "endswith_comma ?line")
        case True
        with f h d show ?thesis by (simp add: flush_check_ok)
      next
        case False
        with cs assms(2) have "current_subject s1 = strip p0" by (simp add: capture_subject_def)
        with f h d False ne parts Cons show ?thesis by (auto simp: flush_check_ok row_of_def)
      qed
    qed
  qed
qed

section \<open>Searching the marker and cutting lines\<close>

lemma startswith_iff: "startswith m s \<longleftrightarrow> (\<exists>r. s = m @ r)"
  by (induction m s rule: startswith.induct) auto

lemma startswith_drop: "startswith m s \<Longrightarrow> s = m @ drop (length m) s"
  by (auto simp: startswith_iff)

lemma contains_iff: "contains m s \<longleftrightarrow> (\<exists>a b. s = a @ m @ b)"
proof (induction s)
  case Nil
  show ?case by (auto simp: startswith_iff)
next
  case (Cons c cs)
  show ?case
  proof
    assume "contains m (c # cs)"
    then consider "startswith m (c # cs)" | "contains m cs" by auto
    then show "\<exists>a b. c # cs = a @ m @ b"
    proof cases
      case 1
      then obtain r where "c # cs = m @ r" by (auto simp: startswith_iff)
      then have "c # cs = [] @ m @ r" by simp
      then show ?thesis by blast
    next
      case 2
      with Cons.IH obtain a b where "cs = a @ m @ b" by blast
      then have "c # cs = (c # a) @ m @ b" by simp
      then show ?thesis by blast
    qed
  next
    assume "\<exists>a b. c # cs = a @ m @ b"
    then obtain a b where ab: "c # cs = a @ m @ b" by blast
    show "contains m (c # cs)"
    proof (cases a)
      case Nil
      with ab have "startswith m (c # cs)" by (auto simp: startswith_iff)
      then show ?thesis by simp
    next
      case (Cons x a')
      with ab have "cs = a' @ m @ b" by simp
      with Cons.IH have "contains m cs" by blast
      then show ?thesis by simp
    qed
  qed
qed

lemma split1_first:
  "m \<noteq> [] \<Longrightarrow> contains m s \<Longrightarrow>
   \<exists>pre post. split1 m s = [pre, post] \<and> first_cut m s pre post"
proof (induction s)
  case Nil
  then show ?case by (cases m) auto
next
  case (Cons c cs)
  show ?case
  proof (cases "startswith m (c # cs)")
    case True
    then have "c # cs = m @ drop (length m) (c # cs)" by (rule startswith_drop)
    then have "first_cut m (c # cs) [] (drop (length m) (c # cs))"
      unfolding first_cut_def by simp
    with True show ?thesis by auto
  next
    case False
    with Cons.prems have "contains m cs" by simp
    from Cons.IH [OF Cons.prems(1) this] obtain p q where pq: "split1 m cs = [p, q]"
      and fc: "first_cut m cs p q" by blast
    have "first_cut m (c # cs) (c # p) q"
      unfolding first_cut_def
    proof (intro conjI allI impI)
      from fc show "c # cs = (c # p) @ m @ q" by (simp add: first_cut_def)
    next
      fix pre' post' assume e: "c # cs = pre' @ m @ post'"
      show "length (c # p) \<le> length pre'"
      proof (cases pre')
        case Nil
        with e have "startswith m (c # cs)" by (auto simp: startswith_iff)
        with False show ?thesis by simp
      next
        case (Cons x a')
        with e have "cs = a' @ m @ post'" by simp
        with fc have "length p \<le> length a'" unfolding first_cut_def by blast
        with Cons show ?thesis by simp
      qed
    qed
    with False pq show ?thesis by auto
  qed
qed

lemma text_after_marker_found:
  assumes "contains marker t"
  shows "\<exists>pre post. first_cut marker t pre post \<and> text_after_marker t = Inr (strip post)"
proof -
  have "marker \<noteq> []" by (simp add: marker_def)
  from split1_first [OF this assms] obtain pre post where "split1 marker t = [pre, post]"
    "first_cut marker t pre post" by blast
  then show ?thesis using assms by (auto simp: text_after_marker_def index_item_def)
qed

lemma text_after_marker_absent: "\<not> contains marker t \<Longrightarrow> text_after_marker t = Inr []"
  by (simp add: text_after_marker_def)

lemma extract_text_total: "\<exists>ls. extract_text ext t = Inr ls"
proof -
  have "\<exists>x. text_after_marker t = Inr x"
    using text_after_marker_found [of t] text_after_marker_absent [of t] by blast
  then show ?thesis by (auto simp: extract_text_def)
qed

lemma CR_LF_linebreak [simp]: "is_linebreak (CHR 0x0D)" "is_linebreak (CHR 0x0A)"
  by (simp_all add: is_linebreak_def)

lemma splitlines_from_run:
  "\<not> list_ex is_linebreak l \<Longrightarrow> splitlines_from cur (l @ rest) = splitlines_from (cur @ l) rest"
proof (induction l arbitrary: cur)
  case Nil
  show ?case by simp
next
  case (Cons c l)
  from Cons.prems have c: "\<not> is_linebreak c" and l: "\<not> list_ex is_linebreak l" by simp_all
  from c have "c \<noteq> CHR 0x0D" by auto
  with c have "splitlines_from cur ((c # l) @ rest) = splitlines_from (cur @ [c]) (l @ rest)"
    by simp
  also have "\<dots> = splitlines_from ((cur @ [c]) @ l) rest" using l by (rule Cons.IH)
  finally show ?case by simp
qed

lemma splitlines_from_LF:
  "splitlines_from cur (CHR 0x0A # rest) = cur # splitlines_from [] rest"
  by simp

lemma splitlines_join:
  "ls \<noteq> [] \<Longrightarrow> last ls \<noteq> [] \<Longrightarrow> \<not> list_ex (list_ex is_linebreak) ls \<Longrightarrow>
   splitlines (join [CHR 0x0A] ls) = ls"
proof (induction "[CHR 0x0A]" ls rule: join.induct)
  case 1
  then show ?case by simp
next
  case (2 x)
  then have "\<not> list_ex is_linebreak x" "x \<noteq> []" by simp_all
  then show ?case
    using splitlines_from_run [of x "[]" "[]"] by (simp add: splitlines_def)
next
  case (3 x y ys)
  from "3.prems" have x: "\<not> list_ex is_linebreak x"
    and r: "\<not> list_ex (list_ex is_linebreak) (y # ys)" "last (y # ys) \<noteq> []" by simp_all
  from "3.hyps" r have ih: "splitlines_from [] (join [CHR 0x0A] (y # ys)) = y # ys"
    by (simp add: splitlines_def)
  have "splitlines (join [CHR 0x0A] (x # y # ys)) =
      splitlines_from [] (x @ CHR 0x0A # join [CHR 0x0A] (y # ys))"
    by (simp add: splitlines_def)
  also have "\<dots> = splitlines_from ([] @ x) (CHR 0x0A # join [CHR 0x0A] (y # ys))"
    using x by (rule splitlines_from_run)
  also have "\<dots> = x # splitlines_from [] (join [CHR 0x0A] (y # ys))"
    by (simp only: append_Nil splitlines_from_LF)
  finally show ?case by (simp add: ih)
qed

lemma strip_last:
  assumes "strip x \<noteq> []"
  shows "\<not> is_space (last (strip x))"
proof -
  define zs where "zs = dropWhile is_space (rev (lstrip x))"
  have sx: "strip x = rev zs" by (simp add: strip_def rstrip_def zs_def)
  with assms have "zs \<noteq> []" by simp
  then have "\<not> is_space (hd zs)" unfolding zs_def by (rule hd_dropWhile)
  moreover have "last (rev zs) = hd zs" using \<open>zs \<noteq> []\<close> by (simp add: last_rev)
  ultimately show ?thesis by (simp add: sx)
qed

lemma strip_decompose:
  "\<exists>l r. x = l @ strip x @ r \<and> list_all is_space l \<and> list_all is_space r"
proof -
  define l where "l = takeWhile is_space x"
  define r where "r = rev (takeWhile is_space (rev (lstrip x)))"
  have "x = l @ lstrip x" by (simp add: l_def lstrip_def)
  also have "lstrip x = strip x @ r"
    unfolding strip_def r_def by (rule rstrip_prefix [symmetric])
  finally have "x = l @ strip x @ r" .
  moreover have "list_all is_space l" unfolding l_def by (rule list_all_takeWhile)
  moreover have "list_all is_space r"
    unfolding r_def using list_all_takeWhile [of is_space "rev (lstrip x)"]
    by (simp add: list_all_iff)
  ultimately show ?thesis by blast
qed

section \<open>A book number of more than 4300 digits\<close>

lemma strip_id:
  assumes "x \<noteq> []" and "\<not> is_space (hd x)" and "\<not> is_space (last x)"
  shows "strip x = x"
proof -
  from assms(1,2) have l: "lstrip x = x" by (cases x) (simp_all add: lstrip_def)
  from assms(1,3) have "dropWhile is_space (rev x) = rev x"
    by (cases "rev x") (simp_all add: hd_rev [symmetric])
  then show ?thesis by (simp add: strip_def l rstrip_def)
qed

lemma rstrip_comma_id:
  assumes "x \<noteq> []" and "last x \<noteq> CHR '',''"
  shows "rstrip_comma x = x"
proof -
  from assms have "dropWhile (\<lambda>c. c = CHR '','') (rev x) = rev x"
    by (cases "rev x") (simp_all add: hd_rev [symmetric])
  then show ?thesis by (simp add: rstrip_comma_def)
qed

lemma split_comma_one: "CHR '','' \<notin> set x \<Longrightarrow> split_comma x = [x]"
  by (induction x) auto

text \<open>
  The line of subject \<^verbatim>\<open>X\<close> whose one token has the book number 1 written with 4300
  zeros before it: the conversion of the book number raises, and so does the parser.
\<close>

lemma long_book_number_raises:
  "parse_index [''X'' @ [CHR 0x09] @ replicate 4300 (CHR ''0'') @ ''1:5''] = Inl ValueError"
proof -
  define tok where "tok = replicate 4300 (CHR ''0'') @ ''1:5''"
  define book where "book = replicate 4300 (CHR ''0'') @ ''1''"
  define raw where "raw = ''X'' @ [CHR 0x09] @ tok"
  have hd_tok: "hd tok = CHR ''0''" by (simp add: tok_def hd_append)
  have tok_ne: "tok \<noteq> []" and last_tok: "last tok = CHR ''5''"
    and tok_set: "set tok = {CHR ''0'', CHR ''1'', CHR '':'', CHR ''5''}"
    by (auto simp: tok_def)
  have st: "strip tok = tok"
    using tok_ne by (rule strip_id) (simp_all add: hd_tok last_tok is_space_def)
  have "matches_pattern tok book ''5''"
    unfolding matches_pattern_def tok_def book_def
    by (intro exI [of _ "[]"]) (simp add: is_digit_def is_space_def list_all_iff)
  then have "match_ref tok = Some (book, ''5'')"
    by (simp add: matches_pattern_start match_ref_iff)
  moreover have "length book = 4301" by (simp add: book_def)
  ultimately have "\<not> short_book tok" by (simp add: short_book_def st max_str_digits_def)
  then have ar: "add_ref bp tok = Inl ValueError" for bp by (rule add_ref_long)
  have raw_ne: "raw \<noteq> []" and hd_raw: "hd raw = CHR ''X''" and last_raw: "last raw = CHR ''5''"
    and len_raw: "1 < length raw"
    using tok_ne last_tok by (simp_all add: raw_def)
  have sr: "strip raw = raw"
    using raw_ne by (rule strip_id) (simp_all add: hd_raw last_raw is_space_def)
  have nd: "\<not> is_divider raw" using len_raw by (simp add: is_divider_def)
  have sp: "split_parts raw = [''X'', tok]"
    by (simp add: raw_def split_parts_def split_tab1_def)
  have rc: "rstrip_comma tok = tok" using tok_ne by (rule rstrip_comma_id) (simp add: last_tok)
  have sc: "split_comma tok = [tok]" by (rule split_comma_one) (simp add: tok_set)
  have "split_step s raw = Inl ValueError" for s
    by (simp add: split_step_def sp collect_refs_def rc sc ar)
  then have "process_line s raw = Inl ValueError" for s
    using nd raw_ne by (simp add: process_line_def sr content_line_def)
  then have "parse_index [raw] = Inl ValueError" by (simp add: parse_index_def)
  then show ?thesis by (simp only: raw_def tok_def)
qed

section \<open>The continuation example\<close>

text \<open>
  Claim C1, as the code has it. On the two lines \<^verbatim>\<open>"Apples\t1:10, 2:20,"\<close> and
  \<^verbatim>\<open>"\t3:30"\<close> the parser returns no row. The comma that ends the first line
  suppresses the flush, and it suppresses the capture of the subject as well: after that
  line no row is emitted, the subject is still empty, and the pages 10 and 20 stand in
  the lists of books 1 and 2. The second line is trimmed to the single token
  \<^verbatim>\<open>3:30\<close>, which has no split point, so it leaves the state as it is. At the end of
  the input the subject is empty and nothing is flushed.
\<close>

theorem C1_continuation_example:
  "map_sum id observe (parse_loop init_state [''Apples'' @ [CHR 0x09] @ ''1:10, 2:20,'']) =
     Inr ([], [], [Some [''10''], Some [''20''], Some [], Some [], Some [], Some []]) \<and>
   map_sum id observe
     (parse_loop init_state [''Apples'' @ [CHR 0x09] @ ''1:10, 2:20,'', [CHR 0x09] @ ''3:30'']) =
     Inr ([], [], [Some [''10''], Some [''20''], Some [], Some [], Some [], Some []]) \<and>
   parse_index [''Apples'' @ [CHR 0x09] @ ''1:10, 2:20,'', [CHR 0x09] @ ''3:30''] = Inr []"
  by (simp add: parser_defs string_defs)

text \<open>
  Claim C1 as stated fails: the result is not the single row for Apples with the pages
  10, 20 and 30 under books 1, 2 and 3.
\<close>

theorem C1_counterexample:
  "parse_index [''Apples'' @ [CHR 0x09] @ ''1:10, 2:20,'', [CHR 0x09] @ ''3:30''] = Inr [] \<and>
   parse_index [''Apples'' @ [CHR 0x09] @ ''1:10, 2:20,'', [CHR 0x09] @ ''3:30''] \<noteq>
     Inr [[''Apples'', format_pages [''10''], format_pages [''20''], format_pages [''30''],
           [], [], []]]"
  by (simp add: parser_defs string_defs)

section \<open>Reference tokens\<close>

lemma split_parts_Nil [simp]: "split_parts [] = []"
  by (simp add: split_parts_def split_none1_def)

lemma valid_ref_iff:
  "valid_ref tok = Some (b, pages) \<longleftrightarrow>
     (\<exists>book. ref_at_start (strip tok) book pages \<and> b = digits_value book \<and> 1 \<le> b \<and> b \<le> 6)"
proof
  assume "valid_ref tok = Some (b, pages)"
  then obtain book where "match_ref (strip tok) = Some (book, pages)"
    "b = digits_value book" "1 \<le> b" "b \<le> 6"
    by (auto simp: valid_ref_def split: option.splits if_splits)
  then show "\<exists>book. ref_at_start (strip tok) book pages \<and> b = digits_value book \<and> 1 \<le> b \<and> b \<le> 6"
    by (auto simp: match_ref_iff)
next
  assume "\<exists>book. ref_at_start (strip tok) book pages \<and> b = digits_value book \<and> 1 \<le> b \<and> b \<le> 6"
  then obtain book where "match_ref (strip tok) = Some (book, pages)"
    "b = digits_value book" "1 \<le> b" "b \<le> 6"
    by (auto simp: match_ref_iff)
  then show "valid_ref tok = Some (b, pages)" by (simp add: valid_ref_def)
qed

text \<open>
  Claim C4, as the code has it. Take a content line with two parts, read after lines
  \<open>pre\<close> that left the state \<open>s\<close>, whose reference tokens are the second part without its
  trailing commas, cut at the commas, and let every book number among them have at most
  4300 digits. Then no error is raised. If the line does not end with a comma, the parser
  returns the rows so far and one more row: the trimmed first part, then for each book
  from 1 to 6 the formatted list of the pages held for it followed by the page strings of
  the tokens for that book, in the order of the tokens and with repetitions. If the line
  ends with a comma, the same page strings are put at the end of the lists of the state
  and no row is added. A token gives the page string \<open>pages\<close> to book \<open>b\<close> exactly when the
  trimmed token is a page reference of the pattern with that page string, or begins with
  one that whitespace follows, and its book number \<open>b\<close> is from 1 to 6; any other token
  gives nothing. A trimmed token that is a page reference as a whole is matched with its
  own book and page string.
\<close>

theorem C4_reference_tokens:
  assumes "parse_loop init_state pre = Inr s"
    and "split_parts (strip raw) = p0 # p1 # qs"
    and "list_all short_book (split_comma (rstrip_comma p1))"
  shows
    "(\<not> endswith_comma (strip raw) \<longrightarrow>
        parse_index (pre @ [raw]) =
          Inr (data s @
               [strip p0 #
                map (\<lambda>i. format_pages (book_list (book_pages s) i @
                                        pages_for i (split_comma (rstrip_comma p1))))
                  [1, 2, 3, 4, 5, 6]])) \<and>
     (endswith_comma (strip raw) \<longrightarrow>
        (\<exists>s'. parse_loop init_state (pre @ [raw]) = Inr s' \<and> data s' = data s \<and>
              current_subject s' = [] \<and>
              (\<forall>i. book_list (book_pages s') i =
                   book_list (book_pages s) i @ pages_for i (split_comma (rstrip_comma p1))))) \<and>
     (\<forall>tok b pages.
        valid_ref tok = Some (b, pages) \<longleftrightarrow>
          (\<exists>book. ref_at_start (strip tok) book pages \<and> b = digits_value book \<and>
                  1 \<le> b \<and> b \<le> 6)) \<and>
     (\<forall>t book pages.
        matches_pattern t book pages \<longrightarrow>
          ref_at_start t book pages \<and> match_ref t = Some (book, pages))"
proof -
  from reached_state [OF assms(1)] have h: "has_books (book_pages s)"
    and c: "current_subject s = []" by simp_all
  from assms(2) have ne: "strip raw \<noteq> []" by auto
  from content_line_two_parts [OF h c ne assms(2,3)] obtain bp where
    bp: "\<forall>i. book_list bp i =
        book_list (book_pages s) i @ pages_for i (split_comma (rstrip_comma p1))"
    and pl: "process_line s raw =
        Inr (if endswith_comma (strip raw) then s\<lparr>book_pages := bp\<rparr>
             else \<lparr>data = data s @
                      [strip p0 # map (\<lambda>i. format_pages (book_list bp i)) [1, 2, 3, 4, 5, 6]],
                   current_subject = [], book_pages = new_book_pages\<rparr>)"
    by blast
  have A: "parse_index (pre @ [raw]) =
      Inr (data s @
           [strip p0 #
            map (\<lambda>i. format_pages (book_list (book_pages s) i @
                                    pages_for i (split_comma (rstrip_comma p1))))
              [1, 2, 3, 4, 5, 6]])"
    if "\<not> endswith_comma (strip raw)"
    using that pl bp by (simp add: parse_index_snoc [OF assms(1)])
  have B: "\<exists>s'. parse_loop init_state (pre @ [raw]) = Inr s' \<and> data s' = data s \<and>
      current_subject s' = [] \<and>
      (\<forall>i. book_list (book_pages s') i =
           book_list (book_pages s) i @ pages_for i (split_comma (rstrip_comma p1)))"
    if "endswith_comma (strip raw)"
    using that pl bp c assms(1) by (simp add: parse_loop_snoc)
  have C: "ref_at_start t book pages \<and> match_ref t = Some (book, pages)"
    if "matches_pattern t book pages" for t book pages
    using that matches_pattern_start [OF that] by (simp add: match_ref_iff)
  from A B C valid_ref_iff show ?thesis by blast
qed

text \<open>
  The theorem on the line of subject Apples with the tokens \<^verbatim>\<open>3:45\<close>, \<^verbatim>\<open>3 : 45a\<close>,
  \<^verbatim>\<open>7:12\<close>, \<^verbatim>\<open>abc\<close>, \<^verbatim>\<open>3:45\<close> and \<^verbatim>\<open>2:5 extra\<close>: book 3 gets 45, 45a and 45 in that
  order, book 2 gets 5, and the tokens \<^verbatim>\<open>7:12\<close> and \<^verbatim>\<open>abc\<close> give nothing. And on the line
  \<^verbatim>\<open>x 1:10,\<close>, which ends with a comma.
\<close>

theorem C4_reference_tokens_witness:
  "parse_loop init_state [] = Inr init_state \<and>
   split_parts (strip (''Apples'' @ [CHR 0x09] @ ''3:45, 3 : 45a ,7:12,abc,3:45, 2:5 extra'')) =
     [''Apples'', ''3:45, 3 : 45a ,7:12,abc,3:45, 2:5 extra''] \<and>
   split_comma (rstrip_comma ''3:45, 3 : 45a ,7:12,abc,3:45, 2:5 extra'') =
     [''3:45'', '' 3 : 45a '', ''7:12'', ''abc'', ''3:45'', '' 2:5 extra''] \<and>
   list_all short_book [''3:45'', '' 3 : 45a '', ''7:12'', ''abc'', ''3:45'', '' 2:5 extra''] \<and>
   \<not> endswith_comma (strip (''Apples'' @ [CHR 0x09] @ ''3:45, 3 : 45a ,7:12,abc,3:45, 2:5 extra'')) \<and>
   parse_index ([] @ [''Apples'' @ [CHR 0x09] @ ''3:45, 3 : 45a ,7:12,abc,3:45, 2:5 extra'']) =
     Inr [[''Apples'', [], [CHR 0x22, CHR ''5'', CHR 0x22],
           [CHR 0x22] @ ''45, 45a, 45'' @ [CHR 0x22], [], [], []]] \<and>
   split_parts (strip ''x 1:10,'') = [''x'', ''1:10,''] \<and>
   list_all short_book (split_comma (rstrip_comma ''1:10,'')) \<and>
   endswith_comma (strip ''x 1:10,'') \<and>
   (\<exists>s'. parse_loop init_state ([] @ [''x 1:10,'']) = Inr s' \<and> data s' = [] \<and>
         current_subject s' = [] \<and> book_list (book_pages s') 1 = [''10''] \<and>
         book_list (book_pages s') 2 = []) \<and>
   valid_ref '' 3 : 45a '' = Some (3, ''45a'') \<and>
   (\<exists>book. ref_at_start (strip '' 3 : 45a '') book ''45a'' \<and> 3 = digits_value book) \<and>
   matches_pattern ''3:45'' ''3'' ''45'' \<and> match_ref ''3:45'' = Some (''3'', ''45'')"
proof -
  let ?raw = "''Apples'' @ [CHR 0x09] @ ''3:45, 3 : 45a ,7:12,abc,3:45, 2:5 extra''"
  let ?p1 = "''3:45, 3 : 45a ,7:12,abc,3:45, 2:5 extra''"
  let ?toks = "[''3:45'', '' 3 : 45a '', ''7:12'', ''abc'', ''3:45'', '' 2:5 extra'']"
  have i: "parse_loop init_state [] = Inr init_state" by simp
  have sp: "split_parts (strip ?raw) = [''Apples'', ?p1]"
    by (simp add: split_parts_def string_defs)
  have tk: "split_comma (rstrip_comma ?p1) = ?toks" by (simp add: string_defs)
  have ok: "list_all short_book ?toks"
    by (simp add: short_book_def match_ref_def string_defs)
  have nc: "\<not> endswith_comma (strip ?raw)" by (simp add: string_defs)
  have st: "strip ''Apples'' = ''Apples''" by (simp add: string_defs)
  have bl: "book_list (book_pages init_state) j = []" for j
    by (simp add: init_state_def)
  have d0: "data init_state = []" by (simp add: init_state_def)
  have pf: "pages_for 1 ?toks = []" "pages_for 2 ?toks = [''5'']"
    "pages_for 3 ?toks = [''45'', ''45a'', ''45'']" "pages_for 4 ?toks = []"
    "pages_for 5 ?toks = []" "pages_for 6 ?toks = []"
    by (simp_all add: pages_for_Cons valid_ref_def match_ref_def string_defs)
  have ok': "list_all short_book (split_comma (rstrip_comma ?p1))" using ok by (simp only: tk)
  note t1 = C4_reference_tokens [OF i sp ok', THEN conjunct1]
  from t1 nc have a1: "parse_index ([] @ [?raw]) =
      Inr [[''Apples'', [], [CHR 0x22, CHR ''5'', CHR 0x22],
            [CHR 0x22] @ ''45, 45a, 45'' @ [CHR 0x22], [], [], []]]"
    by (simp add: tk pf bl d0 st format_pages_def)
  have sp2: "split_parts (strip ''x 1:10,'') = [''x'', ''1:10,'']"
    by (simp add: split_parts_def string_defs)
  have tk2: "split_comma (rstrip_comma ''1:10,'') = [''1:10'']" by (simp add: string_defs)
  have ok2: "list_all short_book (split_comma (rstrip_comma ''1:10,''))"
    by (simp add: tk2 short_book_def match_ref_def string_defs)
  have ec: "endswith_comma (strip ''x 1:10,'')" by (simp add: string_defs)
  have pf2: "pages_for 1 [''1:10''] = [''10'']" "pages_for 2 [''1:10''] = []"
    by (simp_all add: pages_for_Cons valid_ref_def match_ref_def string_defs)
  note t2 = C4_reference_tokens [OF i sp2 ok2, THEN conjunct2, THEN conjunct1]
  from t2 ec obtain s' where "parse_loop init_state ([] @ [''x 1:10,'']) = Inr s'"
    "data s' = data init_state" "current_subject s' = []"
    "\<forall>i. book_list (book_pages s') i =
        book_list (book_pages init_state) i @ pages_for i (split_comma (rstrip_comma ''1:10,''))"
    by blast
  then have a2: "\<exists>s'. parse_loop init_state ([] @ [''x 1:10,'']) = Inr s' \<and> data s' = [] \<and>
      current_subject s' = [] \<and> book_list (book_pages s') 1 = [''10''] \<and>
      book_list (book_pages s') 2 = []"
    by (simp add: tk2 pf2 bl d0)
  have v: "valid_ref '' 3 : 45a '' = Some (3, ''45a'')"
    by (simp add: valid_ref_def match_ref_def string_defs)
  note t3 = C4_reference_tokens [OF i sp ok', THEN conjunct2, THEN conjunct2]
  from t3 v have a3: "\<exists>book. ref_at_start (strip '' 3 : 45a '') book ''45a'' \<and> 3 = digits_value book"
    by blast
  have mp: "matches_pattern ''3:45'' ''3'' ''45''"
    unfolding matches_pattern_def
    by (intro exI [of _ "[]"]) (simp add: is_digit_def is_space_def)
  from t3 mp have a4: "match_ref ''3:45'' = Some (''3'', ''45'')" by blast
  from i sp tk ok nc a1 sp2 ok2 ec a2 v a3 mp a4 show ?thesis by blast
qed

text \<open>
  Claim C4 as stated fails: the trimmed token \<^verbatim>\<open>2:5 extra\<close> is not a page reference of
  the pattern, and it is not discarded: page 5 is stored for book 2.
\<close>

theorem C4_counterexample:
  "\<not> is_page_reference (strip ''2:5 extra'') \<and>
   parse_index [''X'' @ [CHR 0x09] @ ''2:5 extra''] =
     Inr [[''X'', [], [CHR 0x22, CHR ''5'', CHR 0x22], [], [], [], []]]"
proof -
  have s: "strip ''2:5 extra'' = ''2:5 extra''" by (simp add: string_defs)
  have m: "match_ref ''2:5 extra'' = Some (''2'', ''5'')"
    by (simp add: match_ref_def string_defs)
  have "\<not> matches_pattern ''2:5 extra'' book pages" for book pages
  proof
    assume a: "matches_pattern ''2:5 extra'' book pages"
    from matches_pattern_start [OF a] m have "pages = ''5''" by (simp add: match_ref_iff [symmetric])
    with matches_pattern_last [OF a] show False by simp
  qed
  then have 1: "\<not> is_page_reference (strip ''2:5 extra'')" by (simp add: s is_page_reference_def)
  have 2: "parse_index [''X'' @ [CHR 0x09] @ ''2:5 extra''] =
      Inr [[''X'', [], [CHR 0x22, CHR ''5'', CHR 0x22], [], [], [], []]]"
    by (simp add: parser_defs string_defs)
  from 1 2 show ?thesis by blast
qed

section \<open>The state between lines\<close>

lemma no_comma_line_resets:
  assumes "has_books (book_pages s)" and "current_subject s = []"
    and "book_pages s = new_book_pages" and "\<not> endswith_comma (strip raw)"
    and "process_line s raw = Inr s'"
  shows "current_subject s' = [] \<and> book_pages s' = new_book_pages"
proof (cases "strip raw = []")
  case True
  with assms show ?thesis by (simp add: process_line_def)
next
  case False
  note ne = False
  show ?thesis
  proof (cases "is_divider (strip raw)")
    case True
    with ne assms(1,5) show ?thesis by (auto simp: process_line_def divider_line_ok)
  next
    case False
    from ne False assms(5) have cl: "content_line s (strip raw) = Inr s'"
      by (simp add: process_line_def Let_def)
    then obtain s1 where s1: "split_step s (strip raw) = Inr s1"
      and f: "flush_check s1 (strip raw) = Inr s'"
      by (cases "split_step s (strip raw)") (simp_all add: content_line_def)
    from split_step_Inr [OF assms(1) s1] have h: "has_books (book_pages s1)" by simp
    show ?thesis
    proof (cases "length (split_parts (strip raw)) \<le> 1")
      case True
      then have "split_step s (strip raw) = Inr s" by (rule split_step_one_part)
      with s1 f assms(1,2,3) show ?thesis by (simp add: flush_check_ok)
    next
      case False
      then obtain p0 p1 qs where parts: "split_parts (strip raw) = p0 # p1 # qs"
        by (cases "split_parts (strip raw)"; cases "tl (split_parts (strip raw))") auto
      from s1 parts have c: "collect_refs (capture_subject s (strip raw) p0) p1 = Inr s1"
        by (simp add: split_step_def)
      then have "current_subject s1 = current_subject (capture_subject s (strip raw) p0)"
        by (cases "add_refs (book_pages s) (split_comma (rstrip_comma p1))")
          (auto simp: collect_refs_def)
      with assms(2,4) have "current_subject s1 = strip p0" by (simp add: capture_subject_def)
      moreover have "strip p0 \<noteq> []" using ne parts by (rule first_part_not_blank)
      ultimately show ?thesis using f h assms(4) by (auto simp: flush_check_ok)
    qed
  qed
qed

lemma no_comma_lines_reset:
  "has_books (book_pages s) \<Longrightarrow> current_subject s = [] \<Longrightarrow> book_pages s = new_book_pages \<Longrightarrow>
   \<not> list_ex (\<lambda>l. endswith_comma (strip l)) ls \<Longrightarrow> parse_loop s ls = Inr s' \<Longrightarrow>
   current_subject s' = [] \<and> book_pages s' = new_book_pages"
proof (induction ls arbitrary: s)
  case Nil
  then show ?case by simp
next
  case (Cons l ls)
  from Cons.prems(5) obtain s1 where 1: "process_line s l = Inr s1"
    and 2: "parse_loop s1 ls = Inr s'"
    by (cases "process_line s l") simp_all
  from Cons.prems(4) have nl: "\<not> endswith_comma (strip l)"
    and nls: "\<not> list_ex (\<lambda>l. endswith_comma (strip l)) ls" by simp_all
  from no_comma_line_resets [OF Cons.prems(1,2,3) nl 1]
  have a: "current_subject s1 = []" "book_pages s1 = new_book_pages" by simp_all
  then have "has_books (book_pages s1)" by simp
  from Cons.IH [OF this a nls 2] show ?case .
qed

text \<open>
  Claim C2, as the code has it. The state after a prefix of the input and the state after
  one more line are related by that line, and the line resets the subject and the six
  page lists together or resets neither: either the subject is empty and the dictionary
  is the new one afterwards, or the subject is the one before the line and every page
  list is the one before the line with more at its end. After a prefix none of whose
  lines ends with a comma when trimmed, the subject is empty and the dictionary is the
  new one, so that all six lists are empty. Both are said of prefixes that the parser has
  read without raising an error.
\<close>

theorem C2_state_between_lines:
  "(parse_loop init_state (take n lines) = Inr s \<and> n < length lines \<and>
    parse_loop init_state (take (Suc n) lines) = Inr s' \<longrightarrow>
      process_line s (lines ! n) = Inr s' \<and>
      (current_subject s' = [] \<and> book_pages s' = new_book_pages \<or>
       current_subject s' = current_subject s \<and>
       pages_extend (book_pages s) (book_pages s'))) \<and>
   (parse_loop init_state (take n lines) = Inr s \<and>
    \<not> list_ex (\<lambda>l. endswith_comma (strip l)) (take n lines) \<longrightarrow>
      current_subject s = [] \<and> book_pages s = new_book_pages \<and>
      map (book_pages s) [1, 2, 3, 4, 5, 6] = [Some [], Some [], Some [], Some [], Some [], Some []])"
proof (rule conjI; rule impI)
  assume a: "parse_loop init_state (take n lines) = Inr s \<and> n < length lines \<and>
    parse_loop init_state (take (Suc n) lines) = Inr s'"
  then have a1: "parse_loop init_state (take n lines) = Inr s"
    and a2: "n < length lines"
    and a3: "parse_loop init_state (take (Suc n) lines) = Inr s'"
    by blast+
  from a2 have t: "take (Suc n) lines = take n lines @ [lines ! n]"
    by (rule take_Suc_conv_app_nth)
  from a3 have pl: "process_line s (lines ! n) = Inr s'"
    unfolding t parse_loop_snoc a1 by simp
  from a1 have "has_books (book_pages s)" by (simp add: reached_state)
  from process_line_Inr [OF this pl] pl
  show "process_line s (lines ! n) = Inr s' \<and>
      (current_subject s' = [] \<and> book_pages s' = new_book_pages \<or>
       current_subject s' = current_subject s \<and>
       pages_extend (book_pages s) (book_pages s'))" by simp
next
  assume a: "parse_loop init_state (take n lines) = Inr s \<and>
    \<not> list_ex (\<lambda>l. endswith_comma (strip l)) (take n lines)"
  have i: "has_books (book_pages init_state)" "current_subject init_state = []"
    "book_pages init_state = new_book_pages" by (simp_all add: init_state_def)
  from a no_comma_lines_reset [OF i, of "take n lines" s]
  have r: "current_subject s = [] \<and> book_pages s = new_book_pages" by simp
  then show "current_subject s = [] \<and> book_pages s = new_book_pages \<and>
      map (book_pages s) [1, 2, 3, 4, 5, 6] = [Some [], Some [], Some [], Some [], Some [], Some []]"
    by (simp add: new_book_pages_def)
qed

text \<open>
  The theorem on the lines \<^verbatim>\<open>"Apples\t1:10,"\<close> and \<^verbatim>\<open>B\<close>: the first line keeps the empty
  subject and puts page 10 at the end of the list of book 1, the second resets the subject
  and the lists together. And on the lines \<^verbatim>\<open>"Apples\t1:10"\<close> and \<^verbatim>\<open>B\<close>, none of which
  ends with a comma: the accumulator is empty after both.
\<close>

theorem C2_state_between_lines_witness:
  "(\<exists>s s'. parse_loop init_state (take 0 [''Apples'' @ [CHR 0x09] @ ''1:10,'', ''B'']) = Inr s \<and>
      parse_loop init_state (take (Suc 0) [''Apples'' @ [CHR 0x09] @ ''1:10,'', ''B'']) = Inr s' \<and>
      process_line s ([''Apples'' @ [CHR 0x09] @ ''1:10,'', ''B''] ! 0) = Inr s' \<and>
      observe s = ([], [], [Some [], Some [], Some [], Some [], Some [], Some []]) \<and>
      observe s' = ([], [], [Some [''10''], Some [], Some [], Some [], Some [], Some []]) \<and>
      current_subject s' = current_subject s \<and>
      pages_extend (book_pages s) (book_pages s')) \<and>
   (\<exists>s s'. parse_loop init_state (take 1 [''Apples'' @ [CHR 0x09] @ ''1:10,'', ''B'']) = Inr s \<and>
      parse_loop init_state (take (Suc 1) [''Apples'' @ [CHR 0x09] @ ''1:10,'', ''B'']) = Inr s' \<and>
      process_line s ([''Apples'' @ [CHR 0x09] @ ''1:10,'', ''B''] ! 1) = Inr s' \<and>
      observe s = ([], [], [Some [''10''], Some [], Some [], Some [], Some [], Some []]) \<and>
      observe s' = ([[''B'', [], [], [], [], [], []]], [],
                    [Some [], Some [], Some [], Some [], Some [], Some []]) \<and>
      current_subject s' = [] \<and> book_pages s' = new_book_pages) \<and>
   (\<exists>s. parse_loop init_state (take 2 [''Apples'' @ [CHR 0x09] @ ''1:10'', ''B'']) = Inr s \<and>
      \<not> list_ex (\<lambda>l. endswith_comma (strip l)) (take 2 [''Apples'' @ [CHR 0x09] @ ''1:10'', ''B'']) \<and>
      data s = [[''Apples'', [CHR 0x22, CHR ''1'', CHR ''0'', CHR 0x22], [], [], [], [], []],
                [''B'', [], [], [], [], [], []]] \<and>
      current_subject s = [] \<and> book_pages s = new_book_pages)"
proof -
  let ?L = "[''Apples'' @ [CHR 0x09] @ ''1:10,'', ''B'']"
  let ?M = "[''Apples'' @ [CHR 0x09] @ ''1:10'', ''B'']"
  have e0: "map_sum id observe (parse_loop init_state (take 0 ?L)) =
      Inr ([], [], [Some [], Some [], Some [], Some [], Some [], Some []])"
    and e1: "map_sum id observe (parse_loop init_state (take 1 ?L)) =
      Inr ([], [], [Some [''10''], Some [], Some [], Some [], Some [], Some []])"
    and e2: "map_sum id observe (parse_loop init_state (take 2 ?L)) =
      Inr ([[''B'', [], [], [], [], [], []]], [],
           [Some [], Some [], Some [], Some [], Some [], Some []])"
    and e3: "map_sum id observe (parse_loop init_state (take 2 ?M)) =
      Inr ([[''Apples'', [CHR 0x22, CHR ''1'', CHR ''0'', CHR 0x22], [], [], [], [], []],
            [''B'', [], [], [], [], [], []]], [],
           [Some [], Some [], Some [], Some [], Some [], Some []])"
    by (simp_all add: parser_defs string_defs is_alpha_def)
  from e0 obtain s0 where s0: "parse_loop init_state (take 0 ?L) = Inr s0"
    "observe s0 = ([], [], [Some [], Some [], Some [], Some [], Some [], Some []])"
    by (cases "parse_loop init_state (take 0 ?L)") auto
  from e1 obtain s1 where s1: "parse_loop init_state (take 1 ?L) = Inr s1"
    "observe s1 = ([], [], [Some [''10''], Some [], Some [], Some [], Some [], Some []])"
    by (cases "parse_loop init_state (take 1 ?L)") auto
  from e2 obtain s2 where s2: "parse_loop init_state (take 2 ?L) = Inr s2"
    "observe s2 = ([[''B'', [], [], [], [], [], []]], [],
       [Some [], Some [], Some [], Some [], Some [], Some []])"
    by (cases "parse_loop init_state (take 2 ?L)") auto
  from e3 obtain s3 where s3: "parse_loop init_state (take 2 ?M) = Inr s3"
    "data s3 = [[''Apples'', [CHR 0x22, CHR ''1'', CHR ''0'', CHR 0x22], [], [], [], [], []],
                [''B'', [], [], [], [], [], []]]"
    by (cases "parse_loop init_state (take 2 ?M)") (auto simp: observe_def)
  have s1': "parse_loop init_state (take (Suc 0) ?L) = Inr s1" using s1(1) by simp
  have s2': "parse_loop init_state (take (Suc 1) ?L) = Inr s2" using s2(1) by (simp add: numeral_2_eq_2)
  have nc: "\<not> list_ex (\<lambda>l. endswith_comma (strip l)) (take 2 ?M)"
    by (simp add: string_defs)
  have c1: "current_subject s1 = current_subject s0" using s0(2) s1(2) by (simp add: observe_def)
  have c2: "current_subject s2 \<noteq> current_subject s1 \<or> \<not> pages_extend (book_pages s1) (book_pages s2)"
  proof -
    have "book_list (book_pages s1) 1 = [''10'']" "book_list (book_pages s2) 1 = []"
      using s1(2) s2(2) by (simp_all add: observe_def book_list_def)
    then have "\<not> pages_extend (book_pages s1) (book_pages s2)"
      unfolding pages_extend_def by (auto intro: exI [of _ 1])
    then show ?thesis by simp
  qed
  have c0: "\<not> (current_subject s1 = [] \<and> book_pages s1 = new_book_pages)"
    using s1(2) by (auto simp: observe_def new_book_pages_def)
  have l0: "0 < length ?L" and l1: "1 < length ?L" by simp_all
  note t0 = C2_state_between_lines [of 0 ?L s0 s1, THEN conjunct1]
  note t1 = C2_state_between_lines [of 1 ?L s1 s2, THEN conjunct1]
  note t2 = C2_state_between_lines [of 2 ?M s3, THEN conjunct2]
  from t0 s0(1) l0 s1' c0
  have a: "process_line s0 (?L ! 0) = Inr s1 \<and> current_subject s1 = current_subject s0 \<and>
      pages_extend (book_pages s0) (book_pages s1)" by blast
  from t1 s1(1) l1 s2' c2
  have b: "process_line s1 (?L ! 1) = Inr s2 \<and> current_subject s2 = [] \<and>
      book_pages s2 = new_book_pages" by blast
  from t2 s3(1) nc
  have c: "current_subject s3 = [] \<and> book_pages s3 = new_book_pages" by blast
  from a s0 s1' have A: "\<exists>s s'. parse_loop init_state (take 0 ?L) = Inr s \<and>
      parse_loop init_state (take (Suc 0) ?L) = Inr s' \<and>
      process_line s (?L ! 0) = Inr s' \<and>
      observe s = ([], [], [Some [], Some [], Some [], Some [], Some [], Some []]) \<and>
      observe s' = ([], [], [Some [''10''], Some [], Some [], Some [], Some [], Some []]) \<and>
      current_subject s' = current_subject s \<and>
      pages_extend (book_pages s) (book_pages s')"
    using s1(2) by blast
  from b s1 s2' s2(2) have B: "\<exists>s s'. parse_loop init_state (take 1 ?L) = Inr s \<and>
      parse_loop init_state (take (Suc 1) ?L) = Inr s' \<and>
      process_line s (?L ! 1) = Inr s' \<and>
      observe s = ([], [], [Some [''10''], Some [], Some [], Some [], Some [], Some []]) \<and>
      observe s' = ([[''B'', [], [], [], [], [], []]], [],
                    [Some [], Some [], Some [], Some [], Some [], Some []]) \<and>
      current_subject s' = [] \<and> book_pages s' = new_book_pages"
    by blast
  from c s3 nc have C: "\<exists>s. parse_loop init_state (take 2 ?M) = Inr s \<and>
      \<not> list_ex (\<lambda>l. endswith_comma (strip l)) (take 2 ?M) \<and>
      data s = [[''Apples'', [CHR 0x22, CHR ''1'', CHR ''0'', CHR 0x22], [], [], [], [], []],
                [''B'', [], [], [], [], [], []]] \<and>
      current_subject s = [] \<and> book_pages s = new_book_pages"
    by blast
  from A B C show ?thesis by blast
qed

text \<open>
  Claim C2 as stated fails: after the one line \<^verbatim>\<open>"Apples\t1:10,"\<close> the subject is
  empty and the list of book 1 holds the page 10.
\<close>

theorem C2_counterexample:
  "map_sum id observe (parse_loop init_state [''Apples'' @ [CHR 0x09] @ ''1:10,'']) =
     Inr ([], [], [Some [''10''], Some [], Some [], Some [], Some [], Some []])"
  by (simp add: parser_defs string_defs)

section \<open>Divider lines\<close>

text \<open>
  Claim C3. Let the parser return the rows \<open>rows\<close> on the lines \<open>pre\<close>. If the next line
  is one alphabetic character \<open>c\<close> after trimming, the parser returns \<open>rows\<close> and then the
  row made of \<open>c\<close> and six empty fields, and the state after that line has an empty
  subject and the new dictionary. In the loop body such a line, read in any state whose
  dictionary has its six keys, first appends the row of the subject in progress if there
  is one, then the divider row, and resets the state. If the next line is longer than one
  character after trimming, or is not alphabetic, the parser does not return \<open>rows\<close>
  followed by a row made of that line and six empty fields: no divider row is emitted.
\<close>

theorem C3_divider_lines:
  assumes "parse_index pre = Inr rows"
  shows
    "(\<forall>c. strip raw = [c] \<and> is_alpha c \<longrightarrow>
        parse_index (pre @ [raw]) = Inr (rows @ [[[c], [], [], [], [], [], []]]) \<and>
        (\<exists>s'. parse_loop init_state (pre @ [raw]) = Inr s' \<and>
              current_subject s' = [] \<and> book_pages s' = new_book_pages)) \<and>
     (\<forall>s0 c. has_books (book_pages s0) \<and> strip raw = [c] \<and> is_alpha c \<longrightarrow>
        process_line s0 raw =
          Inr \<lparr>data = data s0 @ (if current_subject s0 \<noteq> [] then [row_of s0] else []) @
                       [[[c], [], [], [], [], [], []]],
               current_subject = [], book_pages = new_book_pages\<rparr>) \<and>
     (strip raw \<noteq> [] \<and> (1 < length (strip raw) \<or> \<not> list_all is_alpha (strip raw)) \<longrightarrow>
        parse_index (pre @ [raw]) \<noteq> Inr (rows @ [[strip raw, [], [], [], [], [], []]]))"
proof -
  from assms obtain s where s: "parse_loop init_state pre = Inr s" and d: "data s = rows"
    by (auto simp: parse_index_reached)
  from reached_state [OF s] have h: "has_books (book_pages s)" and c: "current_subject s = []"
    by simp_all
  have div: "process_line s0 raw =
      Inr \<lparr>data = data s0 @ (if current_subject s0 \<noteq> [] then [row_of s0] else []) @
                   [[[c], [], [], [], [], [], []]],
           current_subject = [], book_pages = new_book_pages\<rparr>"
    if "has_books (book_pages s0)" "strip raw = [c]" "is_alpha c" for s0 c
  proof -
    from that(2,3) have "is_divider (strip raw)" by (simp add: is_divider_iff)
    with that show ?thesis by (simp add: process_line_def divider_line_ok)
  qed
  have A: "parse_index (pre @ [raw]) = Inr (rows @ [[[c], [], [], [], [], [], []]]) \<and>
      (\<exists>s'. parse_loop init_state (pre @ [raw]) = Inr s' \<and>
            current_subject s' = [] \<and> book_pages s' = new_book_pages)"
    if "strip raw = [c] \<and> is_alpha c" for c
  proof -
    from that div [OF h, of c] c have pl: "process_line s raw =
        Inr \<lparr>data = data s @ [[[c], [], [], [], [], [], []]],
             current_subject = [], book_pages = new_book_pages\<rparr>" by simp
    then show ?thesis using s d by (simp add: parse_index_snoc parse_loop_snoc)
  qed
  have C: "parse_index (pre @ [raw]) \<noteq> Inr (rows @ [[strip raw, [], [], [], [], [], []]])"
    if n: "strip raw \<noteq> [] \<and> (1 < length (strip raw) \<or> \<not> list_all is_alpha (strip raw))"
  proof
    assume e: "parse_index (pre @ [raw]) = Inr (rows @ [[strip raw, [], [], [], [], [], []]])"
    from n have ne: "strip raw \<noteq> []" and nd: "\<not> is_divider (strip raw)"
      by (auto simp: is_divider_def isalpha_def)
    from e obtain s' where pl: "process_line s raw = Inr s'"
      and ds: "data s' = rows @ [[strip raw, [], [], [], [], [], []]]"
      by (cases "process_line s raw") (simp_all add: parse_index_snoc [OF s])
    from content_line_rows [OF h c ne nd pl] ds d
    obtain p0 p1 qs where "split_parts (strip raw) = p0 # p1 # qs" "strip p0 = strip raw"
      by auto
    with first_part_differs(1) [OF ne] show False by blast
  qed
  from A div C show ?thesis by blast
qed

text \<open>
  The theorem after the line \<^verbatim>\<open>"Apples\t1:5,1:6"\<close>: the line \<^verbatim>\<open>" B "\<close> adds the divider
  row B to the row of Apples, and the lines \<^verbatim>\<open>AB\<close> and \<^verbatim>\<open>1\<close> add no divider row.
\<close>

theorem C3_divider_lines_witness:
  "parse_index [''Apples'' @ [CHR 0x09] @ ''1:5,1:6''] =
     Inr [[''Apples'', [CHR 0x22, CHR ''5'', CHR '','', CHR '' '', CHR ''6'', CHR 0x22],
           [], [], [], [], []]] \<and>
   strip '' B '' = ''B'' \<and> is_alpha (CHR ''B'') \<and>
   parse_index ([''Apples'' @ [CHR 0x09] @ ''1:5,1:6''] @ ['' B '']) =
     Inr [[''Apples'', [CHR 0x22, CHR ''5'', CHR '','', CHR '' '', CHR ''6'', CHR 0x22],
           [], [], [], [], []],
          [''B'', [], [], [], [], [], []]] \<and>
   has_books (book_pages init_state) \<and>
   process_line init_state '' B '' =
     Inr \<lparr>data = [[''B'', [], [], [], [], [], []]], current_subject = [],
          book_pages = new_book_pages\<rparr> \<and>
   strip ''AB'' \<noteq> [] \<and> 1 < length (strip ''AB'') \<and>
   parse_index ([''Apples'' @ [CHR 0x09] @ ''1:5,1:6''] @ [''AB'']) \<noteq>
     Inr ([[''Apples'', [CHR 0x22, CHR ''5'', CHR '','', CHR '' '', CHR ''6'', CHR 0x22],
            [], [], [], [], []]] @ [[strip ''AB'', [], [], [], [], [], []]]) \<and>
   strip ''1'' \<noteq> [] \<and> \<not> list_all is_alpha (strip ''1'') \<and>
   parse_index ([''Apples'' @ [CHR 0x09] @ ''1:5,1:6''] @ [''1'']) \<noteq>
     Inr ([[''Apples'', [CHR 0x22, CHR ''5'', CHR '','', CHR '' '', CHR ''6'', CHR 0x22],
            [], [], [], [], []]] @ [[strip ''1'', [], [], [], [], [], []]])"
proof -
  let ?pre = "[''Apples'' @ [CHR 0x09] @ ''1:5,1:6'']"
  let ?rows = "[[''Apples'', [CHR 0x22, CHR ''5'', CHR '','', CHR '' '', CHR ''6'', CHR 0x22],
           [], [], [], [], []]]"
  have p: "parse_index ?pre = Inr ?rows" by (simp add: parser_defs string_defs)
  have h: "has_books (book_pages init_state)" and c0: "current_subject init_state = []"
    and d0: "data init_state = []" by (simp_all add: init_state_def)
  have s1: "strip '' B '' = ''B''" and s2: "strip ''AB'' = ''AB''" and s3: "strip ''1'' = ''1''"
    by (simp_all add: string_defs)
  have al: "is_alpha (CHR ''B'')" "\<not> is_alpha (CHR ''1'')" by (simp_all add: is_alpha_def)
  note t1 = C3_divider_lines [OF p, of "'' B ''"]
  note t2 = C3_divider_lines [OF p, of "''AB''"]
  note t3 = C3_divider_lines [OF p, of "''1''"]
  from t1 s1 al(1) have a1: "parse_index (?pre @ ['' B '']) =
      Inr [[''Apples'', [CHR 0x22, CHR ''5'', CHR '','', CHR '' '', CHR ''6'', CHR 0x22],
            [], [], [], [], []],
           [''B'', [], [], [], [], [], []]]"
    by simp
  from t1 h s1 al(1) have "process_line init_state '' B '' =
      Inr \<lparr>data = data init_state @
                (if current_subject init_state \<noteq> [] then [row_of init_state] else []) @
                [[''B'', [], [], [], [], [], []]],
           current_subject = [], book_pages = new_book_pages\<rparr>"
    by blast
  then have a2: "process_line init_state '' B '' =
      Inr \<lparr>data = [[''B'', [], [], [], [], [], []]], current_subject = [],
           book_pages = new_book_pages\<rparr>"
    by (simp add: c0 d0)
  have n2: "strip ''AB'' \<noteq> []" "1 < length (strip ''AB'')" by (simp_all add: s2)
  have n3: "strip ''1'' \<noteq> []" "\<not> list_all is_alpha (strip ''1'')" by (simp_all add: s3 al)
  from t2 n2 have a3: "parse_index (?pre @ [''AB'']) \<noteq>
      Inr (?rows @ [[strip ''AB'', [], [], [], [], [], []]])" by blast
  from t3 n3 have a4: "parse_index (?pre @ [''1'']) \<noteq>
      Inr (?rows @ [[strip ''1'', [], [], [], [], [], []]])" by blast
  from p s1 al(1) a1 h a2 n2 a3 n3 a4 show ?thesis by blast
qed

section \<open>Capturing the subject\<close>

lemma split_step_subject:
  assumes "split_step s line = Inr s1"
  shows "current_subject s1 =
       (if 1 < length (split_parts line) \<and> current_subject s = [] \<and> \<not> endswith_comma line
        then strip (hd (split_parts line)) else current_subject s)"
proof (cases "length (split_parts line) \<le> 1")
  case True
  then have "split_step s line = Inr s" by (rule split_step_one_part)
  with assms True show ?thesis by simp
next
  case False
  then obtain p0 p1 qs where parts: "split_parts line = p0 # p1 # qs"
    by (cases "split_parts line"; cases "tl (split_parts line)") auto
  from assms parts have "collect_refs (capture_subject s line p0) p1 = Inr s1"
    by (simp add: split_step_def)
  then have "current_subject s1 = current_subject (capture_subject s line p0)"
    by (cases "add_refs (book_pages s) (split_comma (rstrip_comma p1))")
      (auto simp: collect_refs_def)
  then show ?thesis using parts by (simp add: capture_subject_def)
qed

text \<open>
  Claim C5, as the code has it. Let the parser return \<open>rows\<close> on the lines \<open>pre\<close> and
  \<open>rows'\<close> on \<open>pre\<close> followed by a content line. If the line has two parts and does not end
  with a comma, its trimmed first part, which is not empty, is captured as the subject:
  \<open>rows'\<close> is \<open>rows\<close> and one row that begins with it. Otherwise no subject is captured and
  \<open>rows'\<close> is \<open>rows\<close>; so it is for a line that ends with a comma, and for a line of one
  part. In the loop body, after the statement that splits the line, the subject is the
  trimmed first part if the line has two parts, no subject was in progress and the line
  does not end with a comma; otherwise it is the subject of before.
\<close>

theorem C5_subject_capture:
  assumes "parse_index pre = Inr rows" and "strip raw \<noteq> []" and "\<not> is_divider (strip raw)"
    and "parse_index (pre @ [raw]) = Inr rows'"
  shows
    "(1 < length (split_parts (strip raw)) \<and> \<not> endswith_comma (strip raw) \<longrightarrow>
        strip (hd (split_parts (strip raw))) \<noteq> [] \<and>
        (\<exists>fs. rows' = rows @ [strip (hd (split_parts (strip raw))) # fs])) \<and>
     (length (split_parts (strip raw)) \<le> 1 \<or> endswith_comma (strip raw) \<longrightarrow> rows' = rows) \<and>
     (\<forall>s s1. split_step s (strip raw) = Inr s1 \<longrightarrow>
        current_subject s1 =
          (if 1 < length (split_parts (strip raw)) \<and> current_subject s = [] \<and>
              \<not> endswith_comma (strip raw)
           then strip (hd (split_parts (strip raw))) else current_subject s))"
proof -
  let ?line = "strip raw"
  from assms(1) obtain s where s: "parse_loop init_state pre = Inr s" and d: "data s = rows"
    by (auto simp: parse_index_reached)
  from reached_state [OF s] have h: "has_books (book_pages s)" and c: "current_subject s = []"
    by simp_all
  from assms(4) obtain s' where pl: "process_line s raw = Inr s'" and d': "data s' = rows'"
    by (cases "process_line s raw") (simp_all add: parse_index_snoc [OF s])
  note r = content_line_rows [OF h c assms(2,3) pl]
  have A: "strip (hd (split_parts ?line)) \<noteq> [] \<and>
      (\<exists>fs. rows' = rows @ [strip (hd (split_parts ?line)) # fs])"
    if "1 < length (split_parts ?line) \<and> \<not> endswith_comma ?line"
  proof -
    from that r obtain p0 p1 qs fs where parts: "split_parts ?line = p0 # p1 # qs"
      and ds: "data s' = data s @ [strip p0 # fs]" by auto
    from first_part_not_blank [OF assms(2) parts] parts ds d d' show ?thesis by simp
  qed
  have B: "rows' = rows" if "length (split_parts ?line) \<le> 1 \<or> endswith_comma ?line"
    using that r d d' by auto
  from A B split_step_subject show ?thesis by blast
qed

text \<open>
  The theorem on three lines. After the line \<^verbatim>\<open>x 1:10,\<close> the line \<^verbatim>\<open>Bananas 2:9\<close> captures
  the subject Bananas, and the page 10 of the line before is attributed to it. The line
  \<^verbatim>\<open>x 1:10,\<close> itself ends with a comma and adds no row.
\<close>

theorem C5_subject_capture_witness:
  "parse_index [''x 1:10,''] = Inr [] \<and>
   strip ''Bananas 2:9'' \<noteq> [] \<and> \<not> is_divider (strip ''Bananas 2:9'') \<and>
   parse_index ([''x 1:10,''] @ [''Bananas 2:9'']) =
     Inr [[''Bananas'', [CHR 0x22, CHR ''1'', CHR ''0'', CHR 0x22],
           [CHR 0x22, CHR ''9'', CHR 0x22], [], [], [], []]] \<and>
   1 < length (split_parts (strip ''Bananas 2:9'')) \<and> \<not> endswith_comma (strip ''Bananas 2:9'') \<and>
   strip (hd (split_parts (strip ''Bananas 2:9''))) = ''Bananas'' \<and>
   (\<exists>fs. [[''Bananas'', [CHR 0x22, CHR ''1'', CHR ''0'', CHR 0x22],
            [CHR 0x22, CHR ''9'', CHR 0x22], [], [], [], []]] =
          [] @ [strip (hd (split_parts (strip ''Bananas 2:9''))) # fs]) \<and>
   parse_index [] = Inr [] \<and> strip ''x 1:10,'' \<noteq> [] \<and> \<not> is_divider (strip ''x 1:10,'') \<and>
   endswith_comma (strip ''x 1:10,'') \<and>
   parse_index ([] @ [''x 1:10,'']) = Inr [] \<and>
   (\<exists>s1. split_step init_state (strip ''Bananas 2:9'') = Inr s1 \<and>
         current_subject s1 = ''Bananas'')"
proof -
  have p1: "parse_index [''x 1:10,''] = Inr []"
    and p2: "parse_index ([''x 1:10,''] @ [''Bananas 2:9'']) =
      Inr [[''Bananas'', [CHR 0x22, CHR ''1'', CHR ''0'', CHR 0x22],
            [CHR 0x22, CHR ''9'', CHR 0x22], [], [], [], []]]"
    and p0: "parse_index [] = Inr []"
    and p3: "parse_index ([] @ [''x 1:10,'']) = Inr []"
    by (simp_all add: parser_defs string_defs)
  have l1: "strip ''Bananas 2:9'' = ''Bananas 2:9''" and l2: "strip ''x 1:10,'' = ''x 1:10,''"
    by (simp_all add: string_defs)
  have n1: "strip ''Bananas 2:9'' \<noteq> []" and n2: "strip ''x 1:10,'' \<noteq> []"
    by (simp_all add: l1 l2)
  have d1: "\<not> is_divider (strip ''Bananas 2:9'')" and d2: "\<not> is_divider (strip ''x 1:10,'')"
    by (simp_all add: l1 l2 is_divider_def)
  have sp: "split_parts (strip ''Bananas 2:9'') = [''Bananas'', ''2:9'']"
    by (simp add: split_parts_def string_defs)
  have len: "1 < length (split_parts (strip ''Bananas 2:9''))" by (simp add: sp)
  have e1: "\<not> endswith_comma (strip ''Bananas 2:9'')" and e2: "endswith_comma (strip ''x 1:10,'')"
    by (simp_all add: string_defs)
  have hd: "strip (hd (split_parts (strip ''Bananas 2:9''))) = ''Bananas''"
    by (simp add: sp) (simp add: string_defs)
  note t1 = C5_subject_capture [OF p1 n1 d1 p2]
  note t2 = C5_subject_capture [OF p0 n2 d2 p3]
  from t1 len e1 have a1: "\<exists>fs. [[''Bananas'', [CHR 0x22, CHR ''1'', CHR ''0'', CHR 0x22],
            [CHR 0x22, CHR ''9'', CHR 0x22], [], [], [], []]] =
          [] @ [strip (hd (split_parts (strip ''Bananas 2:9''))) # fs]"
    by blast
  have "map_sum id observe (split_step init_state (strip ''Bananas 2:9'')) =
      Inr ([], ''Bananas'', [Some [], Some [''9''], Some [], Some [], Some [], Some []])"
    by (simp add: parser_defs string_defs)
  then obtain s1 where s1: "split_step init_state (strip ''Bananas 2:9'') = Inr s1"
    by (cases "split_step init_state (strip ''Bananas 2:9'')") auto
  have c0: "current_subject init_state = []" by (simp add: init_state_def)
  from t1 s1 len e1 c0 have "current_subject s1 = strip (hd (split_parts (strip ''Bananas 2:9'')))"
    by (simp del: hd)
  with s1 hd have a2: "\<exists>s1. split_step init_state (strip ''Bananas 2:9'') = Inr s1 \<and>
      current_subject s1 = ''Bananas''" by auto
  from p1 n1 d1 p2 len e1 hd a1 p0 n2 d2 e2 p3 a2 show ?thesis by blast
qed

text \<open>
  Claim C5 as stated fails: the content line \<^verbatim>\<open>Apples\<close> is read with no subject in progress
  and does not end with a comma, and it sets no subject: the statement that splits the
  line leaves the state as it is, and the parser returns no row.
\<close>

theorem C5_counterexample:
  "current_subject init_state = [] \<and> strip ''Apples'' = ''Apples'' \<and>
   \<not> is_divider ''Apples'' \<and> \<not> endswith_comma ''Apples'' \<and>
   map_sum id observe (split_step init_state ''Apples'') =
     Inr ([], [], [Some [], Some [], Some [], Some [], Some [], Some []]) \<and>
   map_sum id observe (process_line init_state ''Apples'') =
     Inr ([], [], [Some [], Some [], Some [], Some [], Some [], Some []]) \<and>
   parse_index [''Apples''] = Inr []"
  by (simp add: parser_defs string_defs)

section \<open>Lines of a single token\<close>

text \<open>
  Claim C9. Take a line that after trimming is not empty, is not a divider and has no
  whitespace in it. Read after any lines \<open>pre\<close>, it changes neither the state of the loop
  nor the rows that the parser returns. In the loop body, in any state whose dictionary
  has its six keys, the statement that splits the line leaves the state as it is, so that
  no subject is set and no page is stored; the line then flushes the subject in progress
  if there is one and the line does not end with a comma, and otherwise leaves the state
  as it is.
\<close>

theorem C9_single_token_lines:
  assumes "strip raw \<noteq> []" and "\<not> is_divider (strip raw)" and "\<not> list_ex is_space (strip raw)"
  shows
    "parse_loop init_state (pre @ [raw]) = parse_loop init_state pre \<and>
     parse_index (pre @ [raw]) = parse_index pre \<and>
     (\<forall>s. has_books (book_pages s) \<longrightarrow>
        split_step s (strip raw) = Inr s \<and>
        process_line s raw =
          Inr (if \<not> endswith_comma (strip raw) \<and> current_subject s \<noteq> []
               then \<lparr>data = data s @ [row_of s], current_subject = [],
                     book_pages = new_book_pages\<rparr>
               else s))"
proof -
  from assms(1,3) have parts: "split_parts (strip raw) = [strip raw]"
    by (rule single_token_parts)
  then have ss: "split_step s (strip raw) = Inr s" for s by (simp add: split_step_def)
  have pf: "process_line s raw = flush_check s (strip raw)" for s
    using assms(1,2) ss by (simp add: process_line_def content_line_def Let_def)
  have C: "split_step s (strip raw) = Inr s \<and>
      process_line s raw =
        Inr (if \<not> endswith_comma (strip raw) \<and> current_subject s \<noteq> []
             then \<lparr>data = data s @ [row_of s], current_subject = [],
                   book_pages = new_book_pages\<rparr>
             else s)"
    if "has_books (book_pages s)" for s
    using that ss pf by (simp add: flush_check_ok)
  have A: "parse_loop init_state (pre @ [raw]) = parse_loop init_state pre"
  proof (cases "parse_loop init_state pre")
    case (Inl e)
    then show ?thesis by (simp add: parse_loop_snoc)
  next
    case (Inr s)
    from reached_state [OF Inr] have "current_subject s = []" by simp
    then have "process_line s raw = Inr s" by (simp add: pf flush_check_def)
    with Inr show ?thesis by (simp add: parse_loop_snoc)
  qed
  then have B: "parse_index (pre @ [raw]) = parse_index pre" by (simp add: parse_index_def)
  from A B C show ?thesis by blast
qed

text \<open>
  The theorem on the line \<^verbatim>\<open>" see-also "\<close> read after the line \<^verbatim>\<open>x 1:10,\<close>: the state
  keeps page 10 for book 1 and no row is returned.
\<close>

theorem C9_single_token_lines_witness:
  "strip '' see-also '' \<noteq> [] \<and> \<not> is_divider (strip '' see-also '') \<and>
   \<not> list_ex is_space (strip '' see-also '') \<and>
   parse_loop init_state ([''x 1:10,''] @ ['' see-also '']) = parse_loop init_state [''x 1:10,''] \<and>
   map_sum id observe (parse_loop init_state ([''x 1:10,''] @ ['' see-also ''])) =
     Inr ([], [], [Some [''10''], Some [], Some [], Some [], Some [], Some []]) \<and>
   parse_index ([''x 1:10,''] @ ['' see-also '']) = Inr [] \<and>
   has_books (book_pages init_state) \<and>
   split_step init_state (strip '' see-also '') = Inr init_state \<and>
   process_line init_state '' see-also '' = Inr init_state"
proof -
  have l: "strip '' see-also '' = ''see-also''" by (simp add: string_defs)
  have n: "strip '' see-also '' \<noteq> []" by (simp add: l)
  have d: "\<not> is_divider (strip '' see-also '')" by (simp add: l is_divider_def)
  have w: "\<not> list_ex is_space (strip '' see-also '')" by (simp add: l is_space_def)
  have h: "has_books (book_pages init_state)" and c0: "current_subject init_state = []"
    by (simp_all add: init_state_def)
  have o: "map_sum id observe (parse_loop init_state [''x 1:10,'']) =
      Inr ([], [], [Some [''10''], Some [], Some [], Some [], Some [], Some []])"
    and p: "parse_index [''x 1:10,''] = Inr []"
    by (simp_all add: parser_defs string_defs)
  note t = C9_single_token_lines [OF n d w, of "[''x 1:10,'']"]
  from t have a1: "parse_loop init_state ([''x 1:10,''] @ ['' see-also '']) =
      parse_loop init_state [''x 1:10,'']" by blast
  from t p have a3: "parse_index ([''x 1:10,''] @ ['' see-also '']) = Inr []" by simp
  from t h c0 have a4: "split_step init_state (strip '' see-also '') = Inr init_state"
    and a5: "process_line init_state '' see-also '' = Inr init_state" by simp_all
  from a1 o have a2: "map_sum id observe (parse_loop init_state ([''x 1:10,''] @ ['' see-also ''])) =
      Inr ([], [], [Some [''10''], Some [], Some [], Some [], Some [], Some []])"
    by (simp only:)
  from n d w a1 a2 a3 h a4 a5 show ?thesis by blast
qed

section \<open>The end of the input\<close>

text \<open>
  Claim C10. After the loop, in a state whose dictionary has its six keys, the parser
  appends the row of the subject if the subject is not empty, and returns the rows. If
  the subject is empty it returns the rows of the state as they are, whatever the page
  lists hold. The state that the loop leaves on any input has an empty subject, so the
  rows that the parser returns are the rows of that state, and the pages still held in
  its lists are in no row.
\<close>

theorem C10_final_flush:
  "(has_books (book_pages s) \<longrightarrow>
      final_flush s = Inr (if current_subject s \<noteq> [] then data s @ [row_of s] else data s)) \<and>
   (current_subject s = [] \<longrightarrow> final_flush s = Inr (data s)) \<and>
   (parse_loop init_state lines = Inr s' \<longrightarrow>
      parse_index lines = final_flush s' \<and> parse_index lines = Inr (data s'))"
proof (rule conjI, rule impI, rule_tac [2] conjI, rule_tac [2] impI, rule_tac [3] impI)
  assume "has_books (book_pages s)"
  then show "final_flush s = Inr (if current_subject s \<noteq> [] then data s @ [row_of s] else data s)"
    by (simp add: final_flush_def append_row_ok)
next
  assume "current_subject s = []"
  then show "final_flush s = Inr (data s)" by (rule final_flush_empty)
next
  assume a: "parse_loop init_state lines = Inr s'"
  from reached_state [OF a] have "final_flush s' = Inr (data s')" by (simp add: final_flush_empty)
  with a show "parse_index lines = final_flush s' \<and> parse_index lines = Inr (data s')"
    by (simp add: parse_index_def)
qed

text \<open>
  The theorem on the input of the one line \<^verbatim>\<open>x 1:10,\<close>: the loop leaves page 10 in the
  list of book 1 under an empty subject, and the parser returns no row.
\<close>

theorem C10_final_flush_witness:
  "(\<exists>s'. parse_loop init_state [''x 1:10,''] = Inr s' \<and> has_books (book_pages s') \<and>
      current_subject s' = [] \<and> book_pages s' 1 = Some [''10''] \<and> data s' = [] \<and>
      final_flush s' = Inr [] \<and> parse_index [''x 1:10,''] = final_flush s') \<and>
   parse_index [''x 1:10,''] = Inr []"
proof -
  have "map_sum id observe (parse_loop init_state [''x 1:10,'']) =
      Inr ([], [], [Some [''10''], Some [], Some [], Some [], Some [], Some []])"
    by (simp add: parser_defs string_defs)
  then obtain s' where s': "parse_loop init_state [''x 1:10,''] = Inr s'"
    and o: "data s' = []" "current_subject s' = []" "book_pages s' 1 = Some [''10'']"
    "has_books (book_pages s')"
    by (cases "parse_loop init_state [''x 1:10,'']") (auto simp: observe_def has_books_def)
  note t = C10_final_flush [of s' "[''x 1:10,'']" s']
  from t s' o have "final_flush s' = Inr []" "parse_index [''x 1:10,''] = final_flush s'"
    "parse_index [''x 1:10,''] = Inr []"
    by simp_all
  with s' o show ?thesis by blast
qed

section \<open>The marker splitter\<close>

text \<open>
  Claim C6. If the text of a docx, pdf or txt file contains the marker, then with \<open>pre\<close>
  and \<open>post\<close> the texts before and after the first occurrence of the marker, the text that
  is kept is \<open>post\<close> trimmed, and the lines returned are the lines of that text. The
  trimmed \<open>post\<close> is \<open>post\<close> without a run of whitespace at its start and one at its end,
  and if it is not empty it neither begins nor ends with whitespace. In particular, if
  the trimmed \<open>post\<close> is a sequence of lines without line boundaries in them, joined by
  newlines, the last of them not empty, then those lines are returned.
\<close>

theorem C6_text_after_marker:
  assumes "\<exists>a b. full_text = a @ marker @ b"
    and "ext = ''docx'' \<or> ext = ''pdf'' \<or> ext = ''txt''"
  shows
    "\<exists>pre post.
       first_cut marker full_text pre post \<and>
       text_after_marker full_text = Inr (strip post) \<and>
       extract_text ext full_text = Inr (splitlines (strip post)) \<and>
       (\<exists>l r. post = l @ strip post @ r \<and> list_all is_space l \<and> list_all is_space r) \<and>
       (strip post = [] \<or>
        \<not> is_space (hd (strip post)) \<and> \<not> is_space (last (strip post))) \<and>
       (\<forall>ls. ls \<noteq> [] \<and> last ls \<noteq> [] \<and> \<not> list_ex (list_ex is_linebreak) ls \<and>
             strip post = join [CHR 0x0A] ls \<longrightarrow>
             extract_text ext full_text = Inr ls)"
proof -
  from assms(1) have "contains marker full_text" by (simp add: contains_iff)
  from text_after_marker_found [OF this] obtain pre post where
    fc: "first_cut marker full_text pre post"
    and ta: "text_after_marker full_text = Inr (strip post)" by blast
  from ta assms(2) have ex: "extract_text ext full_text = Inr (splitlines (strip post))"
    by (auto simp: extract_text_def)
  have "extract_text ext full_text = Inr ls"
    if "ls \<noteq> [] \<and> last ls \<noteq> [] \<and> \<not> list_ex (list_ex is_linebreak) ls \<and>
        strip post = join [CHR 0x0A] ls" for ls
    using that ex by (simp add: splitlines_join)
  moreover have "strip post = [] \<or>
      \<not> is_space (hd (strip post)) \<and> \<not> is_space (last (strip post))"
    using strip_hd [of post] strip_last [of post] by blast
  ultimately show ?thesis using fc ta ex strip_decompose [of post] by blast
qed

text \<open>
  The theorem on a text file that holds some words, the marker, and two lines after it.
\<close>

theorem C6_text_after_marker_witness:
  "(\<exists>a b. ''Book one. '' @ marker @ [CHR 0x0A] @ ''A'' @ [CHR 0x0A] @ ''Apples 1:5'' @ [CHR 0x0A] =
      a @ marker @ b) \<and>
   (\<exists>pre post.
      ''Book one. '' @ marker @ [CHR 0x0A] @ ''A'' @ [CHR 0x0A] @ ''Apples 1:5'' @ [CHR 0x0A] =
        pre @ marker @ post \<and>
      extract_text ''txt''
        (''Book one. '' @ marker @ [CHR 0x0A] @ ''A'' @ [CHR 0x0A] @ ''Apples 1:5'' @ [CHR 0x0A]) =
        Inr (splitlines (strip post))) \<and>
   extract_text ''txt''
     (''Book one. '' @ marker @ [CHR 0x0A] @ ''A'' @ [CHR 0x0A] @ ''Apples 1:5'' @ [CHR 0x0A]) =
     Inr [''A'', ''Apples 1:5'']"
proof -
  let ?T = "''Book one. '' @ marker @ [CHR 0x0A] @ ''A'' @ [CHR 0x0A] @ ''Apples 1:5'' @ [CHR 0x0A]"
  have m: "\<exists>a b. ?T = a @ marker @ b" by blast
  have e: "''txt'' = ''docx'' \<or> ''txt'' = ''pdf'' \<or> ''txt'' = ''txt''" by simp
  from C6_text_after_marker [OF m e] obtain pre post where
    "first_cut marker ?T pre post" "extract_text ''txt'' ?T = Inr (splitlines (strip post))"
    by blast
  then have a: "\<exists>pre post. ?T = pre @ marker @ post \<and>
      extract_text ''txt'' ?T = Inr (splitlines (strip post))"
    unfolding first_cut_def by blast
  have v: "extract_text ''txt'' ?T = Inr [''A'', ''Apples 1:5'']"
    by (simp add: extract_text_def text_after_marker_def index_item_def marker_def
        splitlines_def is_linebreak_def string_defs)
  from m a v show ?thesis by blast
qed

text \<open>
  Claim C7. If the text does not contain the marker, the text that is kept is empty and
  the lines returned are the empty sequence, for a file of any extension, and no error is
  raised; the driver, which reads the lines and then tests them, raises its error for
  that file. On no text does the splitter raise an error, and whenever it returns the
  empty sequence the driver raises that error.
\<close>

theorem C7_no_marker:
  assumes "\<not> (\<exists>a b. full_text = a @ marker @ b)"
  shows
    "text_after_marker full_text = Inr [] \<and> extract_text ext full_text = Inr [] \<and>
     convert_file ext full_text = Inl ValueError \<and>
     (\<forall>t. \<exists>ls. extract_text ext t = Inr ls \<and>
            (ls = [] \<longrightarrow> convert_file ext t = Inl ValueError) \<and>
            (ls \<noteq> [] \<longrightarrow> convert_file ext t = parse_index ls))"
proof -
  from assms have "\<not> contains marker full_text" by (simp add: contains_iff)
  then have ta: "text_after_marker full_text = Inr []" by (rule text_after_marker_absent)
  then have ex: "extract_text ext full_text = Inr []"
    by (simp add: extract_text_def splitlines_def)
  then have cf: "convert_file ext full_text = Inl ValueError" by (simp add: convert_file_def)
  have "\<exists>ls. extract_text ext t = Inr ls \<and>
      (ls = [] \<longrightarrow> convert_file ext t = Inl ValueError) \<and>
      (ls \<noteq> [] \<longrightarrow> convert_file ext t = parse_index ls)" for t
    using extract_text_total [of ext t] by (auto simp: convert_file_def)
  with ta ex cf show ?thesis by blast
qed

text \<open>
  The theorem on a text file that holds the first line of the marker only.
\<close>

theorem C7_no_marker_witness:
  "\<not> (\<exists>a b. ''Index'' @ [CHR 0x0A] @ ''Apples 1:5'' = a @ marker @ b) \<and>
   text_after_marker (''Index'' @ [CHR 0x0A] @ ''Apples 1:5'') = Inr [] \<and>
   extract_text ''txt'' (''Index'' @ [CHR 0x0A] @ ''Apples 1:5'') = Inr [] \<and>
   convert_file ''txt'' (''Index'' @ [CHR 0x0A] @ ''Apples 1:5'') = Inl ValueError"
proof -
  let ?T = "''Index'' @ [CHR 0x0A] @ ''Apples 1:5''"
  have "\<not> contains marker ?T" by (simp add: marker_def)
  then have n: "\<not> (\<exists>a b. ?T = a @ marker @ b)" by (simp only: contains_iff not_False_eq_True)
  from C7_no_marker [OF n, of "''txt''"] n show ?thesis by blast
qed

section \<open>One call after another\<close>



end
